theory Spec2Isabelle
  imports Complex_Main "HOL-Library.Multiset"
begin

section \<open>The program\<close>

subsection \<open>CPU scheduling: \<open>scheduleFCFS\<close>, \<open>scheduleSJF\<close>, \<open>schedulePriority\<close>, \<open>scheduleRoundRobin\<close>\<close>

text \<open>
  A process is the object built by \<open>addProcess\<close>. All numbers come from \<open>parseInt\<close>,
  so they are integers, which the program holds as double-precision numbers. The sums
  and differences below are those of the integers: they are the program's as long as
  every number that is read or computed has a magnitude of at most \<open>2 ^ 53\<close>, the range
  in which a double holds every integer exactly (predicate \<open>in_range\<close> below); beyond
  it the program rounds and the definitions do not follow it. The property \<open>startTime\<close> that the non-preemptive schedulers
  write on the process object is never read by the program; every entry that a
  scheduler returns overrides it (\<open>{...process, startTime: currentTime, duration: d}\<close>),
  so it is a field of the returned entry only.
\<close>

record process =
  proc_id :: nat
  name :: string
  arrivalTime :: int
  burstTime :: int
  priority :: int
  remainingTime :: int
  waitingTime :: int
  turnaroundTime :: int
  completionTime :: int
  status :: string

text \<open>An entry of the array a scheduler returns: the spread copy of the process at the
  moment of the \<open>push\<close>, with \<open>startTime\<close> and \<open>duration\<close> added.\<close>

record slice = process +
  startTime :: int
  duration :: int

definition spread :: "process \<Rightarrow> int \<Rightarrow> int \<Rightarrow> slice" where
  "spread p st d =
     \<lparr>proc_id = proc_id p, name = name p, arrivalTime = arrivalTime p,
      burstTime = burstTime p, priority = priority p, remainingTime = remainingTime p,
      waitingTime = waitingTime p, turnaroundTime = turnaroundTime p,
      completionTime = completionTime p, status = status p,
      startTime = st, duration = d\<rparr>"

text \<open>\<open>addProcess\<close>: the object pushed for the \<open>n\<close>-th submitted process.\<close>

definition addProcess :: "nat \<Rightarrow> string \<Rightarrow> int \<Rightarrow> int \<Rightarrow> int \<Rightarrow> process" where
  "addProcess n nm arrival burst prio =
     \<lparr>proc_id = n, name = nm, arrivalTime = arrival, burstTime = burst, priority = prio,
      remainingTime = burst, waitingTime = 0, turnaroundTime = 0, completionTime = 0,
      status = ''ready''\<rparr>"

text \<open>The four assignments every non-preemptive scheduler makes to the process it runs
  at clock \<open>currentTime\<close>.\<close>

definition run_to_completion :: "int \<Rightarrow> process \<Rightarrow> process" where
  "run_to_completion currentTime p =
     (let completion = currentTime + burstTime p;
          turnaround = completion - arrivalTime p
      in p\<lparr>completionTime := completion, turnaroundTime := turnaround,
           waitingTime := turnaround - burstTime p\<rparr>)"

text \<open>\<open>scheduleFCFS\<close>: \<open>Array.prototype.sort\<close> is stable, as \<open>sort_key\<close> is; the
  \<open>forEach\<close> threads the clock and the array \<open>scheduled\<close>.\<close>

fun fcfs_each :: "process list \<Rightarrow> int \<Rightarrow> slice list \<Rightarrow> slice list" where
  "fcfs_each [] currentTime scheduled = scheduled"
| "fcfs_each (p # ps) currentTime scheduled =
     (let currentTime = (if currentTime < arrivalTime p then arrivalTime p else currentTime);
          p' = run_to_completion currentTime p
      in fcfs_each ps (completionTime p') (scheduled @ [spread p' currentTime (burstTime p')]))"

definition scheduleFCFS :: "process list \<Rightarrow> slice list" where
  "scheduleFCFS processList = fcfs_each (sort_key arrivalTime processList) 0 []"

text \<open>
  \<open>scheduleSJF\<close> and \<open>schedulePriority\<close> are the same loop; they differ in the comparator
  of \<open>readyQueue.sort\<close> only (\<open>burstTime\<close> or \<open>priority\<close>), which is the parameter
  \<open>key\<close>. \<open>rest\<close> is \<open>processList\<close> from index \<open>i\<close> on. The inner \<open>while\<close> moves the
  arrived prefix of \<open>rest\<close> to the ready queue. The two \<open>[]\<close> branches of the
  \<open>case\<close>s cannot be reached: the loop condition and the test before them exclude them.
\<close>

function ready_queue_loop ::
  "(process \<Rightarrow> int) \<Rightarrow> process list \<Rightarrow> process list \<Rightarrow> int \<Rightarrow> slice list \<Rightarrow> slice list" where
  "ready_queue_loop key rest readyQueue currentTime scheduled =
     (if rest = [] \<and> readyQueue = [] then scheduled
      else
        let readyQueue1 = readyQueue @ takeWhile (\<lambda>p. arrivalTime p \<le> currentTime) rest;
            rest1 = dropWhile (\<lambda>p. arrivalTime p \<le> currentTime) rest
        in if readyQueue1 = [] then
             (case rest1 of
                [] \<Rightarrow> scheduled
              | p # _ \<Rightarrow> ready_queue_loop key rest1 readyQueue1 (arrivalTime p) scheduled)
           else
             (case sort_key key readyQueue1 of
                [] \<Rightarrow> scheduled
              | p # readyQueue2 \<Rightarrow>
                  let p' = run_to_completion currentTime p
                  in ready_queue_loop key rest1 readyQueue2 (completionTime p')
                       (scheduled @ [spread p' currentTime (burstTime p')])))"
  by pat_completeness auto
termination
proof (relation "measure (\<lambda>(key, rest, readyQueue, currentTime, scheduled).
          2 * (length rest + length readyQueue) +
          (if readyQueue = [] \<and> rest \<noteq> [] \<and> currentTime < arrivalTime (hd rest) then 1 else 0))",
       goal_cases)
  case 1
  show ?case by simp
next
  case (2 key rest readyQueue currentTime scheduled readyQueue1 rest1 p ps)
  then have rq: "readyQueue = []"
    and tw: "takeWhile (\<lambda>p. arrivalTime p \<le> currentTime) rest = []"
    by simp_all
  have "rest1 = rest"
    using 2 tw takeWhile_dropWhile_id [of "\<lambda>p. arrivalTime p \<le> currentTime" rest] by simp
  then have rest: "rest = p # ps" using 2 by simp
  then have "\<not> arrivalTime p \<le> currentTime"
    using tw by (simp split: if_splits)
  then show ?case using 2 rq rest by simp
next
  case (3 key rest readyQueue currentTime scheduled readyQueue1 rest1 p readyQueue2 p')
  from 3 have eq: "sort_key key readyQueue1 = p # readyQueue2" by simp
  have "length readyQueue1 = length (sort_key key readyQueue1)" by simp
  also have "\<dots> = Suc (length readyQueue2)" unfolding eq by simp
  finally have "Suc (length readyQueue2) = length readyQueue1" by simp
  moreover have "length rest = length (takeWhile (\<lambda>p. arrivalTime p \<le> currentTime) rest) + length rest1"
    using 3 takeWhile_dropWhile_id [of "\<lambda>p. arrivalTime p \<le> currentTime" rest]
    by (metis length_append)
  ultimately show ?case using 3 by simp
qed

declare ready_queue_loop.simps [simp del]

definition scheduleSJF :: "process list \<Rightarrow> slice list" where
  "scheduleSJF processList = ready_queue_loop burstTime (sort_key arrivalTime processList) [] 0 []"

definition schedulePriority :: "process list \<Rightarrow> slice list" where
  "schedulePriority processList = ready_queue_loop priority (sort_key arrivalTime processList) [] 0 []"

text \<open>
  \<open>scheduleRoundRobin\<close>. \<open>rr_pass\<close> is one run of the \<open>for ... of queue\<close> loop: it
  returns the queue with the visited process objects updated, the clock and the array
  \<open>scheduled\<close>. The entry is pushed before the process is updated, so it is a copy of
  the process as it was when the slice began.
\<close>

fun rr_pass ::
  "int \<Rightarrow> process list \<Rightarrow> int \<Rightarrow> slice list \<Rightarrow> process list \<times> int \<times> slice list" where
  "rr_pass quantum [] currentTime scheduled = ([], currentTime, scheduled)"
| "rr_pass quantum (p # ps) currentTime scheduled =
     (if remainingTime p > 0 \<and> arrivalTime p \<le> currentTime then
        let executeTime = min quantum (remainingTime p);
            scheduled1 = scheduled @ [spread p currentTime executeTime];
            currentTime1 = currentTime + executeTime;
            p1 = p\<lparr>remainingTime := remainingTime p - executeTime\<rparr>;
            p2 = (if remainingTime p1 = 0
                  then p1\<lparr>completionTime := currentTime1,
                          turnaroundTime := currentTime1 - arrivalTime p1,
                          waitingTime := currentTime1 - arrivalTime p1 - burstTime p1\<rparr>
                  else p1)
        in (case rr_pass quantum ps currentTime1 scheduled1 of
              (ps', currentTime2, scheduled2) \<Rightarrow> (p2 # ps', currentTime2, scheduled2))
      else
        (case rr_pass quantum ps currentTime scheduled of
           (ps', currentTime2, scheduled2) \<Rightarrow> (p # ps', currentTime2, scheduled2)))"

text \<open>The \<open>while (queue.some(p => p.remainingTime > 0))\<close> loop may run forever:
  \<open>None\<close> is the call that does not return.\<close>

partial_function (option) rr_while ::
  "int \<Rightarrow> process list \<Rightarrow> int \<Rightarrow> slice list \<Rightarrow> (process list \<times> int \<times> slice list) option" where
  "rr_while quantum queue currentTime scheduled =
     (if list_ex (\<lambda>p. remainingTime p > 0) queue then
        (case rr_pass quantum queue currentTime scheduled of
           (queue', currentTime', scheduled') \<Rightarrow> rr_while quantum queue' currentTime' scheduled')
      else Some (queue, currentTime, scheduled))"

text \<open>The loop equation is the code equation of \<open>rr_while\<close>.\<close>

declare rr_while.simps [code]

definition rr_queue :: "process list \<Rightarrow> process list" where
  "rr_queue processList =
     map (\<lambda>p. p\<lparr>remainingTime := burstTime p\<rparr>) (sort_key arrivalTime processList)"

definition scheduleRoundRobin :: "process list \<Rightarrow> int \<Rightarrow> slice list option" where
  "scheduleRoundRobin processList quantum =
     map_option (\<lambda>(queue, currentTime, scheduled). scheduled)
       (rr_while quantum (rr_queue processList) 0 [])"

text \<open>The \<open>switch\<close> of \<open>runScheduler\<close>. \<open>None\<close> is a call that does not return, which
  only Round Robin can be.\<close>

datatype sched_algorithm = FCFS | SJF | Priority | RR

fun schedule :: "sched_algorithm \<Rightarrow> process list \<Rightarrow> int \<Rightarrow> slice list option" where
  "schedule FCFS processes timeQuantum = Some (scheduleFCFS processes)"
| "schedule SJF processes timeQuantum = Some (scheduleSJF processes)"
| "schedule Priority processes timeQuantum = Some (schedulePriority processes)"
| "schedule RR processes timeQuantum = scheduleRoundRobin processes timeQuantum"

subsection \<open>Memory allocation: \<open>allocateMemory\<close>, \<open>deallocateMemory\<close>, \<open>compactMemory\<close>\<close>

text \<open>
  A block of the global array \<open>memoryBlocks\<close>. The source fields \<open>id\<close>, \<open>size\<close> and
  \<open>status\<close> are \<open>block_id\<close>, \<open>block_size\<close> and \<open>block_status\<close> here; \<open>processName\<close> is
  \<open>null\<close> for a free block.
\<close>

datatype status_tag = Allocated | Free

record memory_block =
  block_id :: nat
  processName :: "string option"
  block_size :: int
  startAddress :: int
  endAddress :: int
  block_status :: status_tag

text \<open>The array as the script initialises it: the block of the operating system alone.\<close>

definition initial_memoryBlocks :: "memory_block list" where
  "initial_memoryBlocks =
     [\<lparr>block_id = 1, processName = Some ''OS'', block_size = 128, startAddress = 0,
       endAddress = 128, block_status = Allocated\<rparr>]"

datatype fit_algorithm = First | Best | Worst

datatype alloc_error = InsufficientSpace

text \<open>
  Blocks are objects, found again by \<open>indexOf\<close>; the model names a block by its index in
  \<open>memoryBlocks\<close>. \<open>freeBlocks\<close> is \<open>memoryBlocks.filter(block => block.status === 'free')\<close>.
  \<open>selectBlock\<close> is the \<open>switch\<close> on the algorithm: \<open>find\<close> for first fit; for best and
  worst fit the candidates sorted by size, ascending or descending, with the stable
  \<open>Array.prototype.sort\<close>, and the first of them.
\<close>

definition freeBlocks :: "memory_block list \<Rightarrow> nat list" where
  "freeBlocks memoryBlocks =
     filter (\<lambda>i. block_status (memoryBlocks ! i) = Free) [0..<length memoryBlocks]"

fun selectBlock :: "fit_algorithm \<Rightarrow> memory_block list \<Rightarrow> int \<Rightarrow> nat option" where
  "selectBlock First memoryBlocks processSize =
     List.find (\<lambda>i. processSize \<le> block_size (memoryBlocks ! i)) (freeBlocks memoryBlocks)"
| "selectBlock Best memoryBlocks processSize =
     (case sort_key (\<lambda>i. block_size (memoryBlocks ! i))
             (filter (\<lambda>i. processSize \<le> block_size (memoryBlocks ! i)) (freeBlocks memoryBlocks)) of
        [] \<Rightarrow> None
      | i # _ \<Rightarrow> Some i)"
| "selectBlock Worst memoryBlocks processSize =
     (case sort_key (\<lambda>i. - block_size (memoryBlocks ! i))
             (filter (\<lambda>i. processSize \<le> block_size (memoryBlocks ! i)) (freeBlocks memoryBlocks)) of
        [] \<Rightarrow> None
      | i # _ \<Rightarrow> Some i)"

text \<open>The decimal digits of a number, for the template string \<open>`P${n}`\<close>.\<close>

definition digit_char :: "nat \<Rightarrow> char" where
  "digit_char d = char_of (d + 48)"

fun decimal :: "nat \<Rightarrow> string" where
  "decimal n =
     (if 10 \<le> n then decimal (n div 10) @ [digit_char (n mod 10)] else [digit_char n])"

declare decimal.simps [simp del]

text \<open>
  \<open>allocateMemory\<close>. \<open>sizeInput\<close> is what \<open>parseInt\<close> reads; \<open>|| 100\<close> replaces 0. The
  function returns nothing; the first component is the branch it takes (the new block
  it saves and logs, or the error it logs), the second the array afterwards.
\<close>

definition allocateMemory ::
  "int \<Rightarrow> fit_algorithm \<Rightarrow> memory_block list \<Rightarrow> (alloc_error + memory_block) \<times> memory_block list" where
  "allocateMemory sizeInput algorithm memoryBlocks =
     (let processSize = (if sizeInput = 0 then 100 else sizeInput)
      in case selectBlock algorithm memoryBlocks processSize of
           None \<Rightarrow> (Inl InsufficientSpace, memoryBlocks)
         | Some blockIndex \<Rightarrow>
             let selectedBlock = memoryBlocks ! blockIndex;
                 newName = ''P'' @ decimal
                   (length (filter (\<lambda>b. block_status b = Allocated \<and> processName b \<noteq> Some ''OS'')
                      memoryBlocks) + 1);
                 newBlock =
                   \<lparr>block_id = length memoryBlocks + 1, processName = Some newName,
                    block_size = processSize, startAddress = startAddress selectedBlock,
                    endAddress = startAddress selectedBlock + processSize,
                    block_status = Allocated\<rparr>;
                 blocks1 = take blockIndex memoryBlocks @ drop (Suc blockIndex) memoryBlocks
                           @ [newBlock];
                 blocks2 =
                   (if processSize < block_size selectedBlock
                    then blocks1 @
                      [\<lparr>block_id = length blocks1 + 1, processName = None,
                        block_size = block_size selectedBlock - processSize,
                        startAddress = startAddress selectedBlock + processSize,
                        endAddress = endAddress selectedBlock, block_status = Free\<rparr>]
                    else blocks1)
             in (Inr newBlock, sort_key startAddress blocks2))"

text \<open>\<open>deallocateMemory\<close> keeps the blocks named \<open>'OS'\<close> and pushes one free block of
  896 KB at address 128.\<close>

definition deallocateMemory :: "memory_block list \<Rightarrow> memory_block list" where
  "deallocateMemory memoryBlocks =
     filter (\<lambda>b. processName b = Some ''OS'') memoryBlocks @
     [\<lparr>block_id = 2, processName = None, block_size = 896, startAddress = 128,
       endAddress = 1024, block_status = Free\<rparr>]"

text \<open>
  \<open>compactMemory\<close>. \<open>place\<close> is the \<open>forEach\<close> that pushes the allocated blocks again,
  numbered from 1 and packed from \<open>currentAddress\<close> on; it returns them with the address
  after the last one.
\<close>

fun place :: "memory_block list \<Rightarrow> nat \<Rightarrow> int \<Rightarrow> memory_block list \<times> int" where
  "place [] index currentAddress = ([], currentAddress)"
| "place (b # bs) index currentAddress =
     (case place bs (Suc index) (currentAddress + block_size b) of
        (placed, lastAddress) \<Rightarrow>
          (b\<lparr>block_id := index + 1, startAddress := currentAddress,
              endAddress := currentAddress + block_size b\<rparr> # placed, lastAddress))"

definition compactMemory :: "memory_block list \<Rightarrow> memory_block list" where
  "compactMemory memoryBlocks =
     (let allocatedBlocks =
            sort_key startAddress (filter (\<lambda>b. block_status b = Allocated) memoryBlocks);
          totalAllocated = sum_list (map block_size allocatedBlocks);
          totalFree = 1024 - totalAllocated
      in case place allocatedBlocks 0 0 of
           (placed, currentAddress) \<Rightarrow>
             (if 0 < totalFree
              then placed @
                [\<lparr>block_id = length placed + 1, processName = None, block_size = totalFree,
                  startAddress = currentAddress, endAddress = 1024, block_status = Free\<rparr>]
              else placed))"

text \<open>A sequence of calls on the initial array.\<close>

datatype memory_call = Allocate int fit_algorithm | Deallocate | Compact

fun memory_step :: "memory_block list \<Rightarrow> memory_call \<Rightarrow> memory_block list" where
  "memory_step memoryBlocks (Allocate sizeInput algorithm) =
     snd (allocateMemory sizeInput algorithm memoryBlocks)"
| "memory_step memoryBlocks Deallocate = deallocateMemory memoryBlocks"
| "memory_step memoryBlocks Compact = compactMemory memoryBlocks"

definition memory_after :: "memory_call list \<Rightarrow> memory_block list" where
  "memory_after calls = foldl memory_step initial_memoryBlocks calls"

subsection \<open>Disk requests: \<open>addDiskRequest\<close>, \<open>processDiskRequests\<close>\<close>

text \<open>
  A request of the global array \<open>diskRequests\<close> (\<open>req_id\<close> is the source field \<open>id\<close>; the
  \<open>timestamp\<close> is left out). Cylinders and seek distances are integers; the seek time is
  the distance times the literal \<open>0.1\<close>, a number with a fraction, taken over the reals
  (the rounding of the product to a double is not modelled).
\<close>

record disk_request =
  req_id :: nat
  cylinder :: int
  algorithm :: string
  seekTime :: real
  processed :: bool

text \<open>What the function reads and writes besides the requests: the head position and the
  two totals shown on the page (the average before \<open>toFixed\<close>).\<close>

record disk_panel =
  diskRequests :: "disk_request list"
  headPosition :: int
  totalSeekDistance :: int
  avgSeekTime :: real

datatype disk_error = NoPendingRequests

definition addDiskRequest :: "int \<Rightarrow> string \<Rightarrow> disk_request list \<Rightarrow> disk_request list" where
  "addDiskRequest cyl selected ds =
     (if cyl < 0 \<or> cyl > 199 then ds
      else ds @ [\<lparr>req_id = length ds + 1, cylinder = cyl, algorithm = selected,
                  seekTime = 0, processed = False\<rparr>])"

text \<open>
  \<open>processDiskRequests\<close>. The pending requests are objects of \<open>diskRequests\<close>; the model
  names them by their indices. \<open>serve\<close> is the \<open>forEach\<close> over them, which writes
  \<open>seekTime\<close> and \<open>processed\<close> on each request and threads the head position and the
  total. \<open>selected\<close> is the value of the algorithm selector, which the function reads
  and does not use.
\<close>

definition pendingRequests :: "disk_request list \<Rightarrow> nat list" where
  "pendingRequests ds = filter (\<lambda>i. \<not> processed (ds ! i)) [0..<length ds]"

fun serve :: "nat list \<Rightarrow> disk_request list \<Rightarrow> int \<Rightarrow> int \<Rightarrow> disk_request list \<times> int \<times> int" where
  "serve [] ds currentHeadPosition totalSeek = (ds, currentHeadPosition, totalSeek)"
| "serve (i # pending) ds currentHeadPosition totalSeek =
     (let request = ds ! i;
          seekDistance = \<bar>cylinder request - currentHeadPosition\<bar>;
          seek = of_int seekDistance * 0.1
      in serve pending (ds[i := request\<lparr>seekTime := seek, processed := True\<rparr>])
           (cylinder request) (totalSeek + seekDistance))"

definition processDiskRequests :: "string \<Rightarrow> disk_panel \<Rightarrow> disk_error + disk_panel" where
  "processDiskRequests selected w =
     (let pending = pendingRequests (diskRequests w)
      in if length pending = 0 then Inl NoPendingRequests
         else
           (case serve pending (diskRequests w) (headPosition w) 0 of
              (ds, currentHeadPosition, totalSeek) \<Rightarrow>
                Inr \<lparr>diskRequests = ds, headPosition = currentHeadPosition,
                     totalSeekDistance = totalSeek,
                     avgSeekTime = sum_list (map (\<lambda>i. seekTime (ds ! i)) pending)
                                   / of_nat (length pending)\<rparr>))"

section \<open>The properties\<close>

subsection \<open>Scheduling\<close>

text \<open>The input constraints of the scheduler: \<open>arrivalTime \<ge> 0\<close> and \<open>burstTime \<ge> 1\<close>.\<close>

definition valid_input :: "process list \<Rightarrow> bool" where
  "valid_input ps = list_all (\<lambda>p. 0 \<le> arrivalTime p \<and> 1 \<le> burstTime p) ps"

text \<open>A trace is chronologically consistent when its slices are in non-decreasing order
  of \<open>startTime\<close>, each slice starts no earlier than the end of the slice before it, and
  no slice starts before its process has arrived.\<close>

definition chronological :: "slice list \<Rightarrow> bool" where
  "chronological tr \<longleftrightarrow>
     sorted (map startTime tr) \<and>
     successively (\<lambda>a b. startTime a + duration a \<le> startTime b) tr \<and>
     list_all (\<lambda>s. arrivalTime s \<le> startTime s) tr"

text \<open>The loop invariant of all four schedulers: the trace so far is consistent and has
  ended by the current clock.\<close>

definition trace_upto :: "int \<Rightarrow> slice list \<Rightarrow> bool" where
  "trace_upto t tr \<longleftrightarrow>
     chronological tr \<and> list_all (\<lambda>s. startTime s \<le> t \<and> startTime s + duration s \<le> t) tr"

text \<open>The two inequalities of the metrics, on a process or on a returned entry.\<close>

definition metrics_ok :: "'a process_scheme \<Rightarrow> bool" where
  "metrics_ok p \<longleftrightarrow> 0 \<le> waitingTime p \<and> burstTime p \<le> turnaroundTime p"

definition np_upto :: "int \<Rightarrow> slice list \<Rightarrow> bool" where
  "np_upto t tr \<longleftrightarrow> trace_upto t tr \<and> list_all metrics_ok tr"

text \<open>The loop invariant of Round Robin on a process object at clock \<open>t\<close>, and what it
  gives when the loop ends.\<close>

definition rr_proc_ok :: "int \<Rightarrow> process \<Rightarrow> bool" where
  "rr_proc_ok t p \<longleftrightarrow>
     0 \<le> remainingTime p \<and> remainingTime p \<le> burstTime p \<and>
     (remainingTime p < burstTime p \<longrightarrow> arrivalTime p + (burstTime p - remainingTime p) \<le> t) \<and>
     (remainingTime p = 0 \<longrightarrow>
        arrivalTime p + burstTime p \<le> completionTime p \<and> completionTime p \<le> t \<and>
        turnaroundTime p = completionTime p - arrivalTime p \<and>
        waitingTime p = turnaroundTime p - burstTime p)"

definition rr_finished :: "process \<Rightarrow> bool" where
  "rr_finished p \<longleftrightarrow>
     remainingTime p = 0 \<and> metrics_ok p \<and>
     turnaroundTime p = completionTime p - arrivalTime p \<and>
     waitingTime p = turnaroundTime p - burstTime p"

text \<open>
  No idle gap: \<open>gap_free c queue\<close> says that every unfinished process of the queue has
  arrived by the time \<open>c\<close> plus the remaining times of the processes before it, so that
  some unfinished process can always run at clock \<open>c\<close>.
\<close>

fun gap_free :: "int \<Rightarrow> process list \<Rightarrow> bool" where
  "gap_free c [] = True"
| "gap_free c (p # ps) =
     ((remainingTime p \<le> 0 \<or> arrivalTime p \<le> c) \<and> gap_free (c + remainingTime p) ps)"

definition remaining_total :: "process list \<Rightarrow> int" where
  "remaining_total ps = sum_list (map remainingTime ps)"

text \<open>The three processes of Scenarios A and B, as \<open>addProcess\<close> builds them.\<close>

definition scenario :: "process list" where
  "scenario = [addProcess 1 ''P1'' 0 5 1, addProcess 2 ''P2'' 1 3 1, addProcess 3 ''P3'' 2 8 1]"

text \<open>
  The exact range. A process list is in range when no arrival time and no burst time
  is negative and every arrival time plus the sum of all burst times is at most
  \<open>2 ^ 53\<close>. Then every clock value, completion time, turnaround time and waiting time
  that a scheduler computes is an integer between \<open>- (2 ^ 53)\<close> and \<open>2 ^ 53\<close>, which a double
  holds exactly, so that the program's arithmetic is the integer arithmetic of the
  definitions above.
\<close>

definition in_range :: "process list \<Rightarrow> bool" where
  "in_range ps =
     list_all (\<lambda>p. 0 \<le> arrivalTime p \<and> 0 \<le> burstTime p \<and>
                    arrivalTime p + sum_list (map burstTime ps) \<le> 2 ^ 53) ps"

text \<open>Every slice of a trace lies between clock \<open>0\<close> and clock \<open>B\<close>.\<close>

definition slices_within :: "int \<Rightarrow> slice list \<Rightarrow> bool" where
  "slices_within B tr = list_all (\<lambda>s. 0 \<le> startTime s \<and> startTime s + duration s \<le> B) tr"

text \<open>The loop invariant behind it for the non-preemptive schedulers: the clock \<open>t\<close> and
  the arrival time of every process still to run, plus the bursts still to run, stay
  below \<open>B\<close>.\<close>

definition clock_fits :: "int \<Rightarrow> int \<Rightarrow> process list \<Rightarrow> bool" where
  "clock_fits B t ps \<longleftrightarrow>
     0 \<le> t \<and> t + sum_list (map burstTime ps) \<le> B \<and>
     list_all (\<lambda>p. 0 \<le> arrivalTime p \<and> 0 \<le> burstTime p \<and>
                    arrivalTime p + sum_list (map burstTime ps) \<le> B) ps"

text \<open>Three processes of which the second was submitted with the burst time \<open>-3\<close>, which
  \<open>addProcess\<close> accepts (\<open>parseInt(...) || 1\<close> replaces only \<open>0\<close> and \<open>NaN\<close>).\<close>

definition negative_burst :: "process list" where
  "negative_burst =
     [addProcess 1 ''P1'' 0 5 1, addProcess 2 ''P2'' 1 (- 3) 1, addProcess 3 ''P3'' 2 2 1]"

subsection \<open>Memory\<close>

text \<open>A candidate for a request is a free block that is large enough.\<close>

definition is_candidate :: "memory_block list \<Rightarrow> int \<Rightarrow> nat \<Rightarrow> bool" where
  "is_candidate bs requestSize j \<longleftrightarrow>
     j < length bs \<and> block_status (bs ! j) = Free \<and> requestSize \<le> block_size (bs ! j)"

text \<open>
  \<open>tiles a bs e\<close>: the blocks \<open>bs\<close>, in this order, cover the addresses from \<open>a\<close> to \<open>e\<close>
  without gap or overlap, each of a positive size with \<open>endAddress = startAddress + size\<close>.
  \<open>layout_ok\<close> adds that the space is the 1024 KB and that the first block is the 128 KB
  block of the operating system, the only one named \<open>'OS'\<close>.
\<close>

fun tiles :: "int \<Rightarrow> memory_block list \<Rightarrow> int \<Rightarrow> bool" where
  "tiles a [] e \<longleftrightarrow> a = e"
| "tiles a (b # bs) e \<longleftrightarrow>
     startAddress b = a \<and> 0 < block_size b \<and> endAddress b = a + block_size b \<and>
     tiles (endAddress b) bs e"

definition layout_ok :: "memory_block list \<Rightarrow> bool" where
  "layout_ok bs \<longleftrightarrow>
     tiles 0 bs 1024 \<and>
     (case bs of
        [] \<Rightarrow> False
      | os # rest \<Rightarrow>
          processName os = Some ''OS'' \<and> block_size os = 128 \<and> block_status os = Allocated \<and>
          list_all (\<lambda>b. processName b \<noteq> Some ''OS'') rest)"

text \<open>The four properties of the memory invariant, as the specification words them.\<close>

definition pairwise_disjoint :: "memory_block list \<Rightarrow> bool" where
  "pairwise_disjoint bs \<longleftrightarrow>
     (\<forall>i<length bs. \<forall>j<length bs. i \<noteq> j \<longrightarrow>
        endAddress (bs ! i) \<le> startAddress (bs ! j) \<or>
        endAddress (bs ! j) \<le> startAddress (bs ! i))"

definition partition_ok :: "memory_block list \<Rightarrow> bool" where
  "partition_ok bs \<longleftrightarrow>
     sum_list (map block_size bs) = 1024 \<and> pairwise_disjoint bs \<and>
     list_all (\<lambda>b. endAddress b - startAddress b = block_size b) bs \<and>
     sorted (map startAddress bs)"

text \<open>A call is valid when its request size is not negative (0 stands for the default of
  100 KB); deallocation and compaction rebuild the free space.\<close>

definition valid_call :: "memory_call \<Rightarrow> bool" where
  "valid_call c = (case c of Allocate sizeInput alg \<Rightarrow> 0 \<le> sizeInput | _ \<Rightarrow> True)"

definition is_reset :: "memory_call \<Rightarrow> bool" where
  "is_reset c = (case c of Allocate sizeInput alg \<Rightarrow> False | _ \<Rightarrow> True)"

text \<open>A layout with free blocks of 50, 200 and 100 KB between allocated blocks
  (Scenario C).\<close>

definition fragmented_layout :: "memory_block list" where
  "fragmented_layout =
     [\<lparr>block_id = 1, processName = Some ''OS'', block_size = 128, startAddress = 0,
       endAddress = 128, block_status = Allocated\<rparr>,
      \<lparr>block_id = 7, processName = None, block_size = 50, startAddress = 128,
       endAddress = 178, block_status = Free\<rparr>,
      \<lparr>block_id = 3, processName = Some ''P1'', block_size = 100, startAddress = 178,
       endAddress = 278, block_status = Allocated\<rparr>,
      \<lparr>block_id = 8, processName = None, block_size = 200, startAddress = 278,
       endAddress = 478, block_status = Free\<rparr>,
      \<lparr>block_id = 5, processName = Some ''P2'', block_size = 100, startAddress = 478,
       endAddress = 578, block_status = Allocated\<rparr>,
      \<lparr>block_id = 9, processName = None, block_size = 100, startAddress = 578,
       endAddress = 678, block_status = Free\<rparr>,
      \<lparr>block_id = 6, processName = Some ''P3'', block_size = 346, startAddress = 678,
       endAddress = 1024, block_status = Allocated\<rparr>]"

text \<open>Calls of the page that build a block of negative size: \<open>allocateMemory\<close> accepts the
  request size \<open>-50\<close> (\<open>parseInt(...) || 100\<close> replaces only \<open>0\<close> and \<open>NaN\<close>), and every free
  block is large enough for it.\<close>

definition negative_size_calls :: "memory_call list" where
  "negative_size_calls = [Deallocate, Allocate (- 50) First, Allocate 100 First, Allocate 100 First]"

subsection \<open>Disk\<close>

text \<open>
  Service in submission order, as the specification words it: one pass over the queue
  that leaves a processed request alone and gives a pending one the seek time
  \<open>|cylinder - head| * 0.1\<close>, marks it processed and moves the head to its cylinder.
  \<open>seek_distances head cs\<close> are the distances between each cylinder of \<open>cs\<close> and the
  position of the head before it is served, for service in this order from \<open>head\<close>.
\<close>

fun serviced :: "int \<Rightarrow> disk_request list \<Rightarrow> disk_request list" where
  "serviced head [] = []"
| "serviced head (r # rs) =
     (if processed r then r # serviced head rs
      else r\<lparr>seekTime := of_int \<bar>cylinder r - head\<bar> * 0.1, processed := True\<rparr>
             # serviced (cylinder r) rs)"

definition seek_distances :: "int \<Rightarrow> int list \<Rightarrow> int list" where
  "seek_distances head cs = map2 (\<lambda>c h. \<bar>c - h\<bar>) cs (head # cs)"

text \<open>A request and a result without the algorithm tags.\<close>

definition disk_view :: "disk_request \<Rightarrow> nat \<times> int \<times> real \<times> bool" where
  "disk_view r = (req_id r, cylinder r, seekTime r, processed r)"

definition run_view ::
  "disk_error + disk_panel \<Rightarrow> disk_error + ((nat \<times> int \<times> real \<times> bool) list \<times> int \<times> int \<times> real)" where
  "run_view res =
     map_sum id (\<lambda>w. (map disk_view (diskRequests w), headPosition w, totalSeekDistance w,
                       avgSeekTime w)) res"

text \<open>Scenario D: head at 50, requests for the cylinders 98, 183, 37, 122.\<close>

definition scenario_D :: disk_panel where
  "scenario_D =
     \<lparr>diskRequests =
        addDiskRequest 122 ''scan'' (addDiskRequest 37 ''scan''
          (addDiskRequest 183 ''scan'' (addDiskRequest 98 ''scan'' []))),
      headPosition = 50, totalSeekDistance = 0, avgSeekTime = 0\<rparr>"

section \<open>The proofs\<close>

subsection \<open>Scheduling\<close>

lemma trace_upto_Nil: "trace_upto t []"
  by (simp add: trace_upto_def chronological_def)

lemma trace_upto_mono: "trace_upto t tr \<Longrightarrow> t \<le> t' \<Longrightarrow> trace_upto t' tr"
  by (auto simp: trace_upto_def list_all_iff)

lemma trace_upto_snoc:
  assumes "trace_upto t tr" and "arrivalTime p \<le> t" and "0 \<le> d"
  shows "trace_upto (t + d) (tr @ [spread p t d])"
proof -
  have "sorted (map startTime (tr @ [spread p t d]))"
    using assms by (auto simp: trace_upto_def chronological_def sorted_append list_all_iff spread_def)
  moreover have "successively (\<lambda>a b. startTime a + duration a \<le> startTime b) (tr @ [spread p t d])"
    using assms
    by (cases "tr = []")
       (auto simp: trace_upto_def chronological_def successively_append_iff list_all_iff spread_def)
  moreover have "list_all (\<lambda>s. arrivalTime s \<le> startTime s) (tr @ [spread p t d])"
    using assms by (auto simp: trace_upto_def chronological_def list_all_iff spread_def)
  moreover have "list_all (\<lambda>s. startTime s \<le> t + d \<and> startTime s + duration s \<le> t + d) (tr @ [spread p t d])"
    using assms by (auto simp: trace_upto_def list_all_iff spread_def)
  ultimately show ?thesis by (simp add: trace_upto_def chronological_def)
qed

lemma run_to_completion_sel [simp]:
  "arrivalTime (run_to_completion t p) = arrivalTime p"
  "burstTime (run_to_completion t p) = burstTime p"
  "completionTime (run_to_completion t p) = t + burstTime p"
  "turnaroundTime (run_to_completion t p) = t + burstTime p - arrivalTime p"
  "waitingTime (run_to_completion t p) = t - arrivalTime p"
  by (simp_all add: run_to_completion_def Let_def)

lemma np_upto_Nil: "np_upto t []"
  by (simp add: np_upto_def trace_upto_Nil)

lemma np_upto_mono: "np_upto t tr \<Longrightarrow> t \<le> t' \<Longrightarrow> np_upto t' tr"
  by (auto simp: np_upto_def intro: trace_upto_mono)

lemma np_upto_snoc:
  assumes "np_upto t tr" and "arrivalTime p \<le> t" and "0 \<le> burstTime p"
  shows "np_upto (t + burstTime p) (tr @ [spread (run_to_completion t p) t (burstTime p)])"
proof -
  have "trace_upto (t + burstTime p) (tr @ [spread (run_to_completion t p) t (burstTime p)])"
    using trace_upto_snoc [of t tr "run_to_completion t p" "burstTime p"] assms
    by (simp add: np_upto_def)
  moreover have "metrics_ok (spread (run_to_completion t p) t (burstTime p))"
    using assms by (simp add: metrics_ok_def spread_def)
  ultimately show ?thesis using assms(1) by (simp add: np_upto_def)
qed

lemma fcfs_each_np:
  "np_upto t sched \<Longrightarrow> \<forall>p\<in>set ps. 0 \<le> burstTime p \<Longrightarrow> \<exists>t'. np_upto t' (fcfs_each ps t sched)"
proof (induction ps arbitrary: t sched)
  case Nil
  then show ?case by auto
next
  case (Cons p ps)
  let ?t = "if t < arrivalTime p then arrivalTime p else t"
  have "np_upto ?t sched" using Cons.prems(1) by (auto intro: np_upto_mono)
  then have "np_upto (?t + burstTime p) (sched @ [spread (run_to_completion ?t p) ?t (burstTime p)])"
    using Cons.prems(2) by (intro np_upto_snoc) auto
  from Cons.IH [OF this] Cons.prems(2) show ?case
    by (simp add: Let_def)
qed

lemma ready_queue_loop_np:
  "np_upto t sched \<Longrightarrow> \<forall>p\<in>set rest \<union> set ready. 0 \<le> burstTime p \<Longrightarrow>
   \<forall>p\<in>set ready. arrivalTime p \<le> t \<Longrightarrow>
   \<exists>t'. np_upto t' (ready_queue_loop key rest ready t sched)"
proof (induction key rest ready t sched rule: ready_queue_loop.induct)
  case (1 key rest readyQueue currentTime scheduled)
  let ?P = "\<lambda>p. arrivalTime p \<le> currentTime"
  let ?rq1 = "readyQueue @ takeWhile ?P rest"
  let ?rest1 = "dropWhile ?P rest"
  show ?case
  proof (cases "rest = [] \<and> readyQueue = []")
    case True
    then show ?thesis using "1.prems"(1) by (subst ready_queue_loop.simps) auto
  next
    case ne: False
    have rest1_sub: "set ?rest1 \<subseteq> set rest" by (simp add: set_dropWhileD subsetI)
    have rq1_arr: "\<forall>p\<in>set ?rq1. arrivalTime p \<le> currentTime"
      using "1.prems"(3) by (auto dest: set_takeWhileD)
    have rq1_b: "\<forall>p\<in>set ?rq1. 0 \<le> burstTime p"
      using "1.prems"(2) by (auto dest: set_takeWhileD)
    show ?thesis
    proof (cases "?rq1 = []")
      case idle: True
      show ?thesis
      proof (cases ?rest1)
        case Nil
        have "ready_queue_loop key rest readyQueue currentTime scheduled = scheduled"
          by (subst ready_queue_loop.simps) (simp add: Let_def ne idle Nil)
        then show ?thesis using "1.prems"(1) by auto
      next
        case (Cons p ps)
        have "\<not> ?P p" using hd_dropWhile [of ?P rest] Cons by (metis list.sel(1) list.distinct(1))
        then have "np_upto (arrivalTime p) scheduled"
          using "1.prems"(1) by (auto intro: np_upto_mono)
        moreover have "\<forall>p\<in>set ?rest1 \<union> set ?rq1. 0 \<le> burstTime p"
          using "1.prems"(2) rest1_sub rq1_b by auto
        moreover have "\<forall>p\<in>set ?rq1. arrivalTime p \<le> arrivalTime p'" for p'
          using idle by simp
        ultimately have "\<exists>t'. np_upto t' (ready_queue_loop key ?rest1 ?rq1 (arrivalTime p) scheduled)"
          using "1.IH"(1) [OF ne refl refl idle Cons] by blast
        moreover have "ready_queue_loop key rest readyQueue currentTime scheduled =
            ready_queue_loop key ?rest1 ?rq1 (arrivalTime p) scheduled"
          by (subst ready_queue_loop.simps) (simp add: Let_def ne idle Cons)
        ultimately show ?thesis by simp
      qed
    next
      case busy: False
      show ?thesis
      proof (cases "sort_key key ?rq1")
        case Nil
        have "ready_queue_loop key rest readyQueue currentTime scheduled = scheduled"
          using busy by (subst ready_queue_loop.simps) (auto simp: Let_def ne Nil)
        then show ?thesis using "1.prems"(1) by auto
      next
        case (Cons p rq2)
        have sets: "set (p # rq2) = set ?rq1" using Cons [symmetric] by simp
        then have p_in: "p \<in> set ?rq1" and rq2_sub: "set rq2 \<subseteq> set ?rq1" by auto
        let ?p' = "run_to_completion currentTime p"
        have "np_upto (currentTime + burstTime p) (scheduled @ [spread ?p' currentTime (burstTime p)])"
          using "1.prems"(1) rq1_arr rq1_b p_in by (intro np_upto_snoc) auto
        moreover have "\<forall>p\<in>set ?rest1 \<union> set rq2. 0 \<le> burstTime p"
          using "1.prems"(2) rest1_sub rq1_b rq2_sub by blast
        moreover have "\<forall>q\<in>set rq2. arrivalTime q \<le> currentTime + burstTime p"
          using rq1_arr rq1_b rq2_sub p_in by force
        ultimately have "\<exists>t'. np_upto t' (ready_queue_loop key ?rest1 rq2 (completionTime ?p')
            (scheduled @ [spread ?p' currentTime (burstTime ?p')]))"
          using "1.IH"(2) [OF ne refl refl busy Cons refl] by simp
        moreover have "ready_queue_loop key rest readyQueue currentTime scheduled =
            ready_queue_loop key ?rest1 rq2 (completionTime ?p')
              (scheduled @ [spread ?p' currentTime (burstTime ?p')])"
          using busy by (subst ready_queue_loop.simps) (auto simp: Let_def ne Cons)
        ultimately show ?thesis by simp
      qed
    qed
  qed
qed

lemma rr_pass_trace:
  "trace_upto t sched \<Longrightarrow> 1 \<le> q \<Longrightarrow> rr_pass q ps t sched = (ps', t', sched') \<Longrightarrow>
   trace_upto t' sched'"
proof (induction ps arbitrary: t sched ps')
  case Nil
  then show ?case by simp
next
  case (Cons p ps)
  show ?case
  proof (cases "remainingTime p > 0 \<and> arrivalTime p \<le> t")
    case True
    let ?e = "min q (remainingTime p)"
    have "0 \<le> ?e" using True Cons.prems(2) by simp
    then have "trace_upto (t + ?e) (sched @ [spread p t ?e])"
      using Cons.prems(1) True by (intro trace_upto_snoc) auto
    moreover obtain ps2 where "rr_pass q ps (t + ?e) (sched @ [spread p t ?e]) = (ps2, t', sched')"
      using Cons.prems(3) True by (auto simp: Let_def split: prod.splits)
    ultimately show ?thesis using Cons.IH Cons.prems(2) by blast
  next
    case False
    then obtain ps2 where "rr_pass q ps t sched = (ps2, t', sched')"
      using Cons.prems(3) by (auto split: prod.splits)
    then show ?thesis using Cons.IH Cons.prems(1,2) by blast
  qed
qed

lemma rr_while_trace:
  assumes ret: "rr_while q queue t sched = Some (queue', t', sched')"
    and q: "1 \<le> q" and inv: "trace_upto t sched"
  shows "trace_upto t' sched'"
proof -
  have "1 \<le> q \<longrightarrow> trace_upto t sched \<longrightarrow>
      trace_upto (fst (snd (queue', t', sched'))) (snd (snd (queue', t', sched')))"
  proof (rule rr_while.raw_induct
      [where P = "\<lambda>q queue t sched y.
         1 \<le> q \<longrightarrow> trace_upto t sched \<longrightarrow> trace_upto (fst (snd y)) (snd (snd y))",
       OF _ ret])
    fix f q queue t sched y
    assume IH: "\<And>q queue t sched y. f q queue t sched = Some y \<Longrightarrow>
        1 \<le> q \<longrightarrow> trace_upto t sched \<longrightarrow> trace_upto (fst (snd y)) (snd (snd y))"
      and body: "(if list_ex (\<lambda>p. 0 < remainingTime p) queue
          then case rr_pass q queue t sched of
               (queue', currentTime', scheduled') \<Rightarrow> f q queue' currentTime' scheduled'
          else Some (queue, t, sched)) = Some y"
    show "1 \<le> q \<longrightarrow> trace_upto t sched \<longrightarrow> trace_upto (fst (snd y)) (snd (snd y))"
    proof (intro impI)
      assume qq: "1 \<le> q" and tr: "trace_upto t sched"
      show "trace_upto (fst (snd y)) (snd (snd y))"
      proof (cases "list_ex (\<lambda>p. 0 < remainingTime p) queue")
        case True
        obtain queue1 t1 sched1 where pass: "rr_pass q queue t sched = (queue1, t1, sched1)"
          by (cases "rr_pass q queue t sched") auto
        with body True have "f q queue1 t1 sched1 = Some y" by simp
        moreover have "trace_upto t1 sched1"
          using rr_pass_trace [OF tr qq pass] .
        ultimately show ?thesis using IH qq by blast
      next
        case False
        with body tr show ?thesis by auto
      qed
    qed
  qed
  with q inv show ?thesis by simp
qed

lemma rr_pass_idle:
  "\<forall>p\<in>set ps. \<not> (remainingTime p > 0 \<and> arrivalTime p \<le> t) \<Longrightarrow>
   rr_pass q ps t sched = (ps, t, sched)"
  by (induction ps) auto

lemma rr_while_idle_forever:
  assumes idle: "list_ex (\<lambda>p. 0 < remainingTime p) queue"
    "\<forall>p\<in>set queue. \<not> (0 < remainingTime p \<and> arrivalTime p \<le> t)"
  shows "rr_while q queue t sched = None"
proof (cases "rr_while q queue t sched")
  case None
  then show ?thesis .
next
  case (Some y)
  have "(queue0, t0) \<noteq> (queue, t)" if "rr_while q0 queue0 t0 sched0 = Some y0"
    for q0 queue0 t0 sched0 y0
  proof (rule rr_while.raw_induct
      [where P = "\<lambda>q0 queue0 t0 sched0 y0. (queue0, t0) \<noteq> (queue, t)", OF _ that])
    fix f q0 queue0 t0 sched0 y0
    assume IH: "\<And>q0 queue0 t0 sched0 y0. f q0 queue0 t0 sched0 = Some y0 \<Longrightarrow> (queue0, t0) \<noteq> (queue, t)"
      and body: "(if list_ex (\<lambda>p. 0 < remainingTime p) queue0
          then case rr_pass q0 queue0 t0 sched0 of
               (queue', currentTime', scheduled') \<Rightarrow> f q0 queue' currentTime' scheduled'
          else Some (queue0, t0, sched0)) = Some y0"
    show "(queue0, t0) \<noteq> (queue, t)"
    proof
      assume eq: "(queue0, t0) = (queue, t)"
      then have "rr_pass q0 queue0 t0 sched0 = (queue0, t0, sched0)"
        using idle(2) by (simp add: rr_pass_idle)
      with body eq idle(1) have "f q0 queue0 t0 sched0 = Some y0" by simp
      from IH [OF this] eq show False by simp
    qed
  qed
  from this [OF Some] show ?thesis by simp
qed

lemma rr_pass_gap_free:
  assumes "0 \<le> q" and "list_all (\<lambda>p. 0 \<le> remainingTime p) ps" and "gap_free c ps"
    and "rr_pass q ps t sched = (ps', t', sched')"
  shows "t \<le> t' \<and> gap_free (c + (t' - t)) ps' \<and> list_all (\<lambda>p. 0 \<le> remainingTime p) ps' \<and>
         t' + remaining_total ps' = t + remaining_total ps"
  using assms(2-4)
proof (induction ps arbitrary: c t sched ps')
  case Nil
  then show ?case by (simp add: remaining_total_def)
next
  case (Cons p ps)
  have rem: "0 \<le> remainingTime p" and rest: "list_all (\<lambda>p. 0 \<le> remainingTime p) ps"
    using Cons.prems(1) by simp_all
  have gp: "remainingTime p \<le> 0 \<or> arrivalTime p \<le> c"
    and gps: "gap_free (c + remainingTime p) ps"
    using Cons.prems(2) by simp_all
  show ?case
  proof (cases "remainingTime p > 0 \<and> arrivalTime p \<le> t")
    case True
    let ?e = "min q (remainingTime p)"
    let ?p1 = "p\<lparr>remainingTime := remainingTime p - ?e\<rparr>"
    let ?p2 = "if remainingTime ?p1 = 0
               then ?p1\<lparr>completionTime := t + ?e, turnaroundTime := t + ?e - arrivalTime ?p1,
                       waitingTime := t + ?e - arrivalTime ?p1 - burstTime ?p1\<rparr>
               else ?p1"
    have e: "0 \<le> ?e" "?e \<le> remainingTime p" using True assms(1) by simp_all
    obtain ps2 where rec: "rr_pass q ps (t + ?e) (sched @ [spread p t ?e]) = (ps2, t', sched')"
      and ps': "ps' = ?p2 # ps2"
      using Cons.prems(3) True by (auto simp: Let_def split: prod.splits)
    from Cons.IH [OF rest gps rec]
    have le: "t + ?e \<le> t'"
      and g2: "gap_free (c + remainingTime p + (t' - (t + ?e))) ps2"
      and r2: "list_all (\<lambda>p. 0 \<le> remainingTime p) ps2"
      and tot: "t' + remaining_total ps2 = t + ?e + remaining_total ps"
      by simp_all
    have rp2: "remainingTime ?p2 = remainingTime p - ?e" and ap2: "arrivalTime ?p2 = arrivalTime p"
      by simp_all
    have eq: "c + (t' - t) + remainingTime ?p2 = c + remainingTime p + (t' - (t + ?e))"
      unfolding rp2 by simp
    have "gap_free (c + (t' - t) + remainingTime ?p2) ps2" unfolding eq using g2 .
    moreover have "remainingTime ?p2 \<le> 0 \<or> arrivalTime ?p2 \<le> c + (t' - t)"
      unfolding rp2 ap2 using gp True le e by linarith
    ultimately have "gap_free (c + (t' - t)) (?p2 # ps2)"
      unfolding gap_free.simps by blast
    moreover have "0 \<le> remainingTime ?p2" unfolding rp2 using e by simp
    moreover have "t' + remaining_total (?p2 # ps2) = t + remaining_total (p # ps)"
      using tot rp2 by (simp add: remaining_total_def)
    moreover have "t \<le> t'" using le e by linarith
    ultimately show ?thesis using r2 unfolding ps' by simp
  next
    case False
    then obtain ps2 where rec: "rr_pass q ps t sched = (ps2, t', sched')" and ps': "ps' = p # ps2"
      using Cons.prems(3) by (auto split: prod.splits)
    from Cons.IH [OF rest gps rec]
    have le: "t \<le> t'"
      and g2: "gap_free (c + remainingTime p + (t' - t)) ps2"
      and r2: "list_all (\<lambda>p. 0 \<le> remainingTime p) ps2"
      and tot: "t' + remaining_total ps2 = t + remaining_total ps"
      by simp_all
    have eq: "c + (t' - t) + remainingTime p = c + remainingTime p + (t' - t)" by simp
    have "gap_free (c + (t' - t) + remainingTime p) ps2" unfolding eq using g2 .
    moreover have "remainingTime p \<le> 0 \<or> arrivalTime p \<le> c + (t' - t)"
      using gp le by linarith
    ultimately have "gap_free (c + (t' - t)) (p # ps2)"
      unfolding gap_free.simps by blast
    moreover have "t' + remaining_total (p # ps2) = t + remaining_total (p # ps)"
      using tot by (simp add: remaining_total_def)
    ultimately show ?thesis using r2 rem le unfolding ps' by simp
  qed
qed

lemma rr_pass_progress:
  assumes "1 \<le> q" and "list_all (\<lambda>p. 0 \<le> remainingTime p) ps" and "gap_free t ps"
    and "list_ex (\<lambda>p. 0 < remainingTime p) ps"
    and "rr_pass q ps t sched = (ps', t', sched')"
  shows "t < t'"
  using assms(2-5)
proof (induction ps arbitrary: sched ps')
  case Nil
  then show ?case by simp
next
  case (Cons p ps)
  have rem: "0 \<le> remainingTime p" and rest: "list_all (\<lambda>p. 0 \<le> remainingTime p) ps"
    using Cons.prems(1) by simp_all
  show ?case
  proof (cases "0 < remainingTime p")
    case True
    then have arr: "arrivalTime p \<le> t" using Cons.prems(2) by auto
    let ?e = "min q (remainingTime p)"
    have e: "1 \<le> ?e" using True assms(1) by simp
    obtain ps2 where rec: "rr_pass q ps (t + ?e) (sched @ [spread p t ?e]) = (ps2, t', sched')"
      using Cons.prems(4) True arr by (auto simp: Let_def split: prod.splits)
    have "t + ?e \<le> t'"
    proof -
      have "0 \<le> q" using assms(1) by simp
      moreover have "gap_free (t + remainingTime p) ps" using Cons.prems(2) by simp
      ultimately show ?thesis using rr_pass_gap_free [OF _ rest _ rec] by blast
    qed
    then show ?thesis using e by linarith
  next
    case False
    with rem have zero: "remainingTime p = 0" by simp
    then obtain ps2 where rec: "rr_pass q ps t sched = (ps2, t', sched')"
      using Cons.prems(4) by (auto split: prod.splits)
    moreover have "gap_free t ps" using Cons.prems(2) zero by simp
    moreover have "list_ex (\<lambda>p. 0 < remainingTime p) ps" using Cons.prems(3) zero by simp
    ultimately show ?thesis using Cons.IH [OF rest] by blast
  qed
qed

lemma remaining_total_nonneg:
  "list_all (\<lambda>p. 0 \<le> remainingTime p) ps \<Longrightarrow> 0 \<le> remaining_total ps"
  by (induction ps) (simp_all add: remaining_total_def)

lemma rr_while_returns:
  assumes "1 \<le> q"
  shows "list_all (\<lambda>p. 0 \<le> remainingTime p) queue \<Longrightarrow> gap_free t queue \<Longrightarrow>
         \<exists>y. rr_while q queue t sched = Some y"
proof (induction "nat (remaining_total queue)" arbitrary: queue t sched rule: less_induct)
  case less
  show ?case
  proof (cases "list_ex (\<lambda>p. 0 < remainingTime p) queue")
    case False
    then show ?thesis by (subst rr_while.simps) simp
  next
    case True
    obtain queue' t' sched' where pass: "rr_pass q queue t sched = (queue', t', sched')"
      by (cases "rr_pass q queue t sched") auto
    have q0: "0 \<le> q" using assms by simp
    from rr_pass_gap_free [OF q0 less.prems(1) less.prems(2) pass]
    have g: "gap_free t' queue'" and r: "list_all (\<lambda>p. 0 \<le> remainingTime p) queue'"
      and tot: "t' + remaining_total queue' = t + remaining_total queue"
      by simp_all
    have "t < t'" using rr_pass_progress [OF assms less.prems(1) less.prems(2) True pass] .
    then have "remaining_total queue' < remaining_total queue" using tot by linarith
    moreover have "0 \<le> remaining_total queue'" using r by (rule remaining_total_nonneg)
    ultimately have "nat (remaining_total queue') < nat (remaining_total queue)" by simp
    from less.hyps [OF this r g] obtain y where "rr_while q queue' t' sched' = Some y" by blast
    then have "rr_while q queue t sched = Some y"
      using True pass by (subst rr_while.simps) simp
    then show ?thesis by blast
  qed
qed

text \<open>The lemmas on all inputs below carry the hypothesis \<open>in_range\<close>: they are stated
  for the inputs on which the integer arithmetic of the definitions is the program's.\<close>

lemma round_robin_returns_without_idle_gap:
  assumes "valid_input ps" and "1 \<le> quantum" and "gap_free 0 (rr_queue ps)"
    and "in_range ps"
  shows "\<exists>tr. scheduleRoundRobin ps quantum = Some tr"
proof -
  have "list_all (\<lambda>p. 0 \<le> remainingTime p) (rr_queue ps)"
    using assms(1) by (auto simp: valid_input_def rr_queue_def list_all_iff)
  from rr_while_returns [OF assms(2) this assms(3)]
  obtain y where "rr_while quantum (rr_queue ps) 0 [] = Some y" by blast
  then show ?thesis by (simp add: scheduleRoundRobin_def)
qed

text \<open>
  C1. The claim: for every non-empty list of valid processes and every quantum of at
  least 1 the Round Robin cycle terminates. The loop only runs a process that has
  arrived by the current clock and never moves the clock forward while the CPU is idle,
  as the other three schedulers do: it returns when there is no idle gap
  (\<open>round_robin_returns_without_idle_gap\<close>). For the single process (P1, arrival 1,
  burst 1) and quantum 1 no process is ever eligible at clock 0: the call does not
  return.
\<close>

theorem round_robin_idle_gap_never_returns:
  "valid_input [addProcess 1 ''P1'' 1 1 1] \<and>
   scheduleRoundRobin [addProcess 1 ''P1'' 1 1 1] 1 = None"
proof -
  have "rr_while 1 (rr_queue [addProcess 1 ''P1'' 1 1 1]) 0 [] = None"
    by (rule rr_while_idle_forever) (simp_all add: rr_queue_def addProcess_def)
  then show ?thesis by (simp add: scheduleRoundRobin_def valid_input_def addProcess_def)
qed

lemma scheduleFCFS_np:
  "\<forall>p\<in>set ps. 0 \<le> burstTime p \<Longrightarrow> \<exists>t. np_upto t (scheduleFCFS ps)"
  unfolding scheduleFCFS_def by (rule fcfs_each_np) (simp_all add: np_upto_Nil)

lemma scheduleSJF_np:
  "\<forall>p\<in>set ps. 0 \<le> burstTime p \<Longrightarrow> \<exists>t. np_upto t (scheduleSJF ps)"
  unfolding scheduleSJF_def by (rule ready_queue_loop_np) (simp_all add: np_upto_Nil)

lemma schedulePriority_np:
  "\<forall>p\<in>set ps. 0 \<le> burstTime p \<Longrightarrow> \<exists>t. np_upto t (schedulePriority ps)"
  unfolding schedulePriority_def by (rule ready_queue_loop_np) (simp_all add: np_upto_Nil)

lemma valid_input_burst: "valid_input ps \<Longrightarrow> \<forall>p\<in>set ps. 0 \<le> burstTime p"
  by (auto simp: valid_input_def list_all_iff)

lemma non_preemptive_metrics:
  assumes "valid_input ps" and "alg \<noteq> RR" and "schedule alg ps quantum = Some tr"
    and "in_range ps"
  shows "list_all metrics_ok tr"
proof (cases alg)
  case FCFS
  then show ?thesis
    using assms scheduleFCFS_np [OF valid_input_burst [OF assms(1)]] by (auto simp: np_upto_def)
next
  case SJF
  then show ?thesis
    using assms scheduleSJF_np [OF valid_input_burst [OF assms(1)]] by (auto simp: np_upto_def)
next
  case Priority
  then show ?thesis
    using assms schedulePriority_np [OF valid_input_burst [OF assms(1)]] by (auto simp: np_upto_def)
next
  case RR
  then show ?thesis using assms by simp
qed

lemma sum_bursts_nonneg:
  "list_all (\<lambda>p. 0 \<le> arrivalTime p \<and> 0 \<le> burstTime p \<and> P p) ps \<Longrightarrow>
   0 \<le> sum_list (map burstTime ps)"
  by (induction ps) simp_all

lemma in_range_clock_fits: "in_range ps \<Longrightarrow> clock_fits (2 ^ 53) 0 ps"
proof (cases ps)
  case Nil
  then show ?thesis by (simp add: clock_fits_def)
next
  case (Cons p qs)
  assume r: "in_range ps"
  then have "arrivalTime p + sum_list (map burstTime ps) \<le> 2 ^ 53" and "0 \<le> arrivalTime p"
    unfolding in_range_def Cons by simp_all
  then have "0 + sum_list (map burstTime ps) \<le> 2 ^ 53" by linarith
  then show ?thesis using r by (simp add: clock_fits_def in_range_def)
qed

lemma clock_fits_perm:
  assumes "mset ps = mset qs"
  shows "clock_fits B t ps = clock_fits B t qs"
proof -
  have "mset (map burstTime ps) = mset (map burstTime qs)" using assms by simp
  then have "sum_list (map burstTime ps) = sum_list (map burstTime qs)"
    by (metis sum_mset_sum_list)
  moreover have "set ps = set qs" using assms by (rule mset_eq_setD)
  ultimately show ?thesis by (simp add: clock_fits_def list_all_iff)
qed

lemma clock_fits_wait:
  assumes "clock_fits B t ps" and "p \<in> set ps"
  shows "clock_fits B (max t (arrivalTime p)) ps"
  using assms by (auto simp: clock_fits_def list_all_iff max_def)

lemma clock_fits_run:
  assumes "clock_fits B t (p # ps)"
  shows "clock_fits B (t + burstTime p) ps" and "0 \<le> t" and "t + burstTime p \<le> B"
proof -
  have b: "0 \<le> burstTime p" and t: "0 \<le> t"
    and s: "t + (burstTime p + sum_list (map burstTime ps)) \<le> B"
    and a: "list_all (\<lambda>q. 0 \<le> arrivalTime q \<and> 0 \<le> burstTime q \<and>
              arrivalTime q + (burstTime p + sum_list (map burstTime ps)) \<le> B) ps"
    using assms by (simp_all add: clock_fits_def)
  have n: "0 \<le> sum_list (map burstTime ps)" using a by (rule sum_bursts_nonneg)
  show "0 \<le> t" by (rule t)
  show "t + burstTime p \<le> B" using s n by linarith
  have "list_all (\<lambda>q. 0 \<le> arrivalTime q \<and> 0 \<le> burstTime q \<and>
              arrivalTime q + sum_list (map burstTime ps) \<le> B) ps"
    using a b by (auto simp: list_all_iff)
  then show "clock_fits B (t + burstTime p) ps"
    using s t b by (simp add: clock_fits_def add.assoc)
qed

lemma slices_within_snoc:
  "slices_within B tr \<Longrightarrow> 0 \<le> t \<Longrightarrow> t + d \<le> B \<Longrightarrow> slices_within B (tr @ [spread p t d])"
  by (simp add: slices_within_def spread_def)

lemma fcfs_each_within:
  "clock_fits B t ps \<Longrightarrow> slices_within B sched \<Longrightarrow> slices_within B (fcfs_each ps t sched)"
proof (induction ps arbitrary: t sched)
  case Nil
  then show ?case by simp
next
  case (Cons p ps)
  let ?t = "if t < arrivalTime p then arrivalTime p else t"
  have "clock_fits B (max t (arrivalTime p)) (p # ps)"
    using Cons.prems(1) by (rule clock_fits_wait) simp
  then have w: "clock_fits B ?t (p # ps)" by (cases "t < arrivalTime p") (simp_all add: max_def)
  note r = clock_fits_run [OF w]
  have "slices_within B (sched @ [spread (run_to_completion ?t p) ?t (burstTime p)])"
    using Cons.prems(2) r(2) r(3) by (rule slices_within_snoc)
  from Cons.IH [OF r(1) this] show ?case by (simp add: Let_def)
qed

lemma ready_queue_loop_within:
  "clock_fits B t (rest @ ready) \<Longrightarrow> slices_within B sched \<Longrightarrow>
   slices_within B (ready_queue_loop key rest ready t sched)"
proof (induction key rest ready t sched rule: ready_queue_loop.induct)
  case (1 key rest readyQueue currentTime scheduled)
  let ?P = "\<lambda>p. arrivalTime p \<le> currentTime"
  let ?rq1 = "readyQueue @ takeWhile ?P rest"
  let ?rest1 = "dropWhile ?P rest"
  have "mset (takeWhile ?P rest) + mset (dropWhile ?P rest) = mset rest"
    by (metis mset_append takeWhile_dropWhile_id)
  then have perm: "mset (?rest1 @ ?rq1) = mset (rest @ readyQueue)"
    by (simp add: ac_simps)
  have fits1: "clock_fits B currentTime (?rest1 @ ?rq1)"
    using "1.prems"(1) clock_fits_perm [OF perm] by simp
  show ?case
  proof (cases "rest = [] \<and> readyQueue = []")
    case True
    then show ?thesis using "1.prems"(2) by (subst ready_queue_loop.simps) simp
  next
    case ne: False
    show ?thesis
    proof (cases "?rq1 = []")
      case idle: True
      show ?thesis
      proof (cases ?rest1)
        case Nil
        have "ready_queue_loop key rest readyQueue currentTime scheduled = scheduled"
          by (subst ready_queue_loop.simps) (simp add: Let_def ne idle Nil)
        then show ?thesis using "1.prems"(2) by simp
      next
        case (Cons p ps)
        have "p \<in> set (?rest1 @ ?rq1)" using Cons by simp
        from clock_fits_wait [OF fits1 this]
        have "clock_fits B (max currentTime (arrivalTime p)) (?rest1 @ ?rq1)" .
        moreover have "\<not> ?P p"
          using hd_dropWhile [of ?P rest] Cons by (metis list.sel(1) list.distinct(1))
        ultimately have "clock_fits B (arrivalTime p) (?rest1 @ ?rq1)" by (simp add: max_def)
        from "1.IH"(1) [OF ne refl refl idle Cons this "1.prems"(2)]
        have "slices_within B (ready_queue_loop key ?rest1 ?rq1 (arrivalTime p) scheduled)" .
        moreover have "ready_queue_loop key rest readyQueue currentTime scheduled =
            ready_queue_loop key ?rest1 ?rq1 (arrivalTime p) scheduled"
          by (subst ready_queue_loop.simps) (simp add: Let_def ne idle Cons)
        ultimately show ?thesis by simp
      qed
    next
      case busy: False
      show ?thesis
      proof (cases "sort_key key ?rq1")
        case Nil
        have "ready_queue_loop key rest readyQueue currentTime scheduled = scheduled"
          using busy by (subst ready_queue_loop.simps) (auto simp: Let_def ne Nil)
        then show ?thesis using "1.prems"(2) by simp
      next
        case (Cons p rq2)
        let ?p' = "run_to_completion currentTime p"
        have "mset (p # rq2) = mset ?rq1" using Cons [symmetric] by simp
        then have "mset (p # (?rest1 @ rq2)) = mset (?rest1 @ ?rq1)" by simp
        from clock_fits_perm [OF this] fits1
        have "clock_fits B currentTime (p # (?rest1 @ rq2))" by simp
        note r = clock_fits_run [OF this]
        have "slices_within B (scheduled @ [spread ?p' currentTime (burstTime p)])"
          using "1.prems"(2) r(2) r(3) by (rule slices_within_snoc)
        with r(1) have "slices_within B (ready_queue_loop key ?rest1 rq2 (completionTime ?p')
            (scheduled @ [spread ?p' currentTime (burstTime ?p')]))"
          using "1.IH"(2) [OF ne refl refl busy Cons refl] by simp
        moreover have "ready_queue_loop key rest readyQueue currentTime scheduled =
            ready_queue_loop key ?rest1 rq2 (completionTime ?p')
              (scheduled @ [spread ?p' currentTime (burstTime ?p')])"
          using busy by (subst ready_queue_loop.simps) (auto simp: Let_def ne Cons)
        ultimately show ?thesis by simp
      qed
    qed
  qed
qed


lemma sum_bursts_sort_key:
  "sum_list (map burstTime (sort_key k ps)) = sum_list (map burstTime ps)"
proof -
  have "mset (map burstTime (sort_key k ps)) = mset (map burstTime ps)" by simp
  then show ?thesis by (metis sum_mset_sum_list)
qed

lemma scheduleFCFS_within: "in_range ps \<Longrightarrow> slices_within (2 ^ 53) (scheduleFCFS ps)"
proof -
  assume "in_range ps"
  then have "clock_fits (2 ^ 53) 0 ps" by (rule in_range_clock_fits)
  moreover have "mset (sort_key arrivalTime ps) = mset ps" by simp
  ultimately have "clock_fits (2 ^ 53) 0 (sort_key arrivalTime ps)"
    using clock_fits_perm by blast
  then show ?thesis
    unfolding scheduleFCFS_def by (rule fcfs_each_within) (simp add: slices_within_def)
qed

lemma ready_queue_within:
  "in_range ps \<Longrightarrow>
   slices_within (2 ^ 53) (ready_queue_loop key (sort_key arrivalTime ps) [] 0 [])"
proof -
  assume "in_range ps"
  then have "clock_fits (2 ^ 53) 0 ps" by (rule in_range_clock_fits)
  moreover have "mset (sort_key arrivalTime ps @ []) = mset ps" by simp
  ultimately have "clock_fits (2 ^ 53) 0 (sort_key arrivalTime ps @ [])"
    using clock_fits_perm by blast
  then show ?thesis by (rule ready_queue_loop_within) (simp add: slices_within_def)
qed

lemma in_range_burst: "in_range ps \<Longrightarrow> \<forall>p\<in>set ps. 0 \<le> burstTime p"
  by (auto simp: in_range_def list_all_iff)

lemma rr_pass_within:
  assumes "0 \<le> q"
  shows "list_all (\<lambda>p. 0 \<le> remainingTime p) ps \<Longrightarrow> 0 \<le> t \<Longrightarrow>
         t + remaining_total ps \<le> B \<Longrightarrow> slices_within B sched \<Longrightarrow>
         rr_pass q ps t sched = (ps', t', sched') \<Longrightarrow>
         0 \<le> t' \<and> list_all (\<lambda>p. 0 \<le> remainingTime p) ps' \<and>
         t' + remaining_total ps' = t + remaining_total ps \<and> slices_within B sched'"
proof (induction ps arbitrary: t sched ps')
  case Nil
  then show ?case by (simp add: remaining_total_def)
next
  case (Cons p ps)
  have rem: "0 \<le> remainingTime p" and rest: "list_all (\<lambda>p. 0 \<le> remainingTime p) ps"
    using Cons.prems(1) by simp_all
  have tot0: "0 \<le> remaining_total ps" using rest by (rule remaining_total_nonneg)
  have bound: "t + (remainingTime p + remaining_total ps) \<le> B"
    using Cons.prems(3) by (simp add: remaining_total_def)
  show ?case
  proof (cases "remainingTime p > 0 \<and> arrivalTime p \<le> t")
    case True
    let ?e = "min q (remainingTime p)"
    let ?p1 = "p\<lparr>remainingTime := remainingTime p - ?e\<rparr>"
    let ?p2 = "if remainingTime ?p1 = 0
               then ?p1\<lparr>completionTime := t + ?e, turnaroundTime := t + ?e - arrivalTime ?p1,
                       waitingTime := t + ?e - arrivalTime ?p1 - burstTime ?p1\<rparr>
               else ?p1"
    have e: "0 \<le> ?e" "?e \<le> remainingTime p" using True assms by simp_all
    obtain ps2 where rec: "rr_pass q ps (t + ?e) (sched @ [spread p t ?e]) = (ps2, t', sched')"
      and ps': "ps' = ?p2 # ps2"
      using Cons.prems(5) True by (auto simp: Let_def split: prod.splits)
    have t1: "0 \<le> t + ?e" using Cons.prems(2) e by linarith
    have b1: "t + ?e + remaining_total ps \<le> B" using bound e by linarith
    have "t + ?e \<le> B" using b1 tot0 by linarith
    with Cons.prems(2,4) have s1: "slices_within B (sched @ [spread p t ?e])"
      by (intro slices_within_snoc)
    from Cons.IH [OF rest t1 b1 s1 rec]
    have t': "0 \<le> t'" and r2: "list_all (\<lambda>p. 0 \<le> remainingTime p) ps2"
      and tot: "t' + remaining_total ps2 = t + ?e + remaining_total ps"
      and s2: "slices_within B sched'"
      by simp_all
    have rp2: "remainingTime ?p2 = remainingTime p - ?e" by simp
    have "0 \<le> remainingTime ?p2" unfolding rp2 using e by simp
    moreover have "t' + remaining_total (?p2 # ps2) = t + remaining_total (p # ps)"
      using tot rp2 by (simp add: remaining_total_def)
    ultimately show ?thesis using t' r2 s2 unfolding ps' by simp
  next
    case False
    then obtain ps2 where rec: "rr_pass q ps t sched = (ps2, t', sched')" and ps': "ps' = p # ps2"
      using Cons.prems(5) by (auto split: prod.splits)
    have b1: "t + remaining_total ps \<le> B" using bound rem by linarith
    from Cons.IH [OF rest Cons.prems(2) b1 Cons.prems(4) rec]
    have t': "0 \<le> t'" and r2: "list_all (\<lambda>p. 0 \<le> remainingTime p) ps2"
      and tot: "t' + remaining_total ps2 = t + remaining_total ps"
      and s2: "slices_within B sched'"
      by simp_all
    have "t' + remaining_total (p # ps2) = t + remaining_total (p # ps)"
      using tot by (simp add: remaining_total_def)
    then show ?thesis using t' r2 s2 rem unfolding ps' by simp
  qed
qed

lemma rr_while_within:
  assumes ret: "rr_while q queue t sched = Some (queue', t', sched')"
    and q: "0 \<le> q" and r: "list_all (\<lambda>p. 0 \<le> remainingTime p) queue" and t: "0 \<le> t"
    and b: "t + remaining_total queue \<le> B" and s: "slices_within B sched"
  shows "slices_within B sched'"
proof -
  have "0 \<le> q \<longrightarrow> list_all (\<lambda>p. 0 \<le> remainingTime p) queue \<longrightarrow> 0 \<le> t \<longrightarrow>
      t + remaining_total queue \<le> B \<longrightarrow> slices_within B sched \<longrightarrow>
      slices_within B (snd (snd (queue', t', sched')))"
  proof (rule rr_while.raw_induct
      [where P = "\<lambda>q queue t sched y.
         0 \<le> q \<longrightarrow> list_all (\<lambda>p. 0 \<le> remainingTime p) queue \<longrightarrow> 0 \<le> t \<longrightarrow>
         t + remaining_total queue \<le> B \<longrightarrow> slices_within B sched \<longrightarrow>
         slices_within B (snd (snd y))",
       OF _ ret])
    fix f q queue t sched y
    assume IH: "\<And>q queue t sched y. f q queue t sched = Some y \<Longrightarrow>
        0 \<le> q \<longrightarrow> list_all (\<lambda>p. 0 \<le> remainingTime p) queue \<longrightarrow> 0 \<le> t \<longrightarrow>
        t + remaining_total queue \<le> B \<longrightarrow> slices_within B sched \<longrightarrow>
        slices_within B (snd (snd y))"
      and body: "(if list_ex (\<lambda>p. 0 < remainingTime p) queue
          then case rr_pass q queue t sched of
               (queue', currentTime', scheduled') \<Rightarrow> f q queue' currentTime' scheduled'
          else Some (queue, t, sched)) = Some y"
    show "0 \<le> q \<longrightarrow> list_all (\<lambda>p. 0 \<le> remainingTime p) queue \<longrightarrow> 0 \<le> t \<longrightarrow>
        t + remaining_total queue \<le> B \<longrightarrow> slices_within B sched \<longrightarrow>
        slices_within B (snd (snd y))"
    proof (intro impI)
      assume qq: "0 \<le> q" and rr: "list_all (\<lambda>p. 0 \<le> remainingTime p) queue"
        and tt: "0 \<le> t" and bb: "t + remaining_total queue \<le> B"
        and ss: "slices_within B sched"
      show "slices_within B (snd (snd y))"
      proof (cases "list_ex (\<lambda>p. 0 < remainingTime p) queue")
        case True
        obtain queue1 t1 sched1 where pass: "rr_pass q queue t sched = (queue1, t1, sched1)"
          by (cases "rr_pass q queue t sched") auto
        with body True have next_call: "f q queue1 t1 sched1 = Some y" by simp
        from rr_pass_within [OF qq rr tt bb ss pass]
        have "0 \<le> t1" and "list_all (\<lambda>p. 0 \<le> remainingTime p) queue1"
          and "t1 + remaining_total queue1 = t + remaining_total queue"
          and "slices_within B sched1"
          by simp_all
        with IH [OF next_call] qq bb show ?thesis by simp
      next
        case False
        with body ss show ?thesis by auto
      qed
    qed
  qed
  with q r t b s show ?thesis by simp
qed

lemma rr_pass_keeps_unfinished:
  assumes "q \<le> 0"
  shows "list_ex (\<lambda>p. 0 < remainingTime p) ps \<Longrightarrow> rr_pass q ps t sched = (ps', t', sched') \<Longrightarrow>
         list_ex (\<lambda>p. 0 < remainingTime p) ps'"
proof (induction ps arbitrary: t sched ps')
  case Nil
  then show ?case by simp
next
  case (Cons p ps)
  show ?case
  proof (cases "remainingTime p > 0 \<and> arrivalTime p \<le> t")
    case True
    let ?e = "min q (remainingTime p)"
    let ?p1 = "p\<lparr>remainingTime := remainingTime p - ?e\<rparr>"
    let ?p2 = "if remainingTime ?p1 = 0
               then ?p1\<lparr>completionTime := t + ?e, turnaroundTime := t + ?e - arrivalTime ?p1,
                       waitingTime := t + ?e - arrivalTime ?p1 - burstTime ?p1\<rparr>
               else ?p1"
    obtain ps2 where ps': "ps' = ?p2 # ps2"
      using Cons.prems(2) True by (auto simp: Let_def split: prod.splits)
    have "remainingTime ?p2 = remainingTime p - ?e" by simp
    moreover have "?e \<le> 0" using assms by simp
    ultimately have "0 < remainingTime ?p2" using True by linarith
    then show ?thesis unfolding ps' by simp
  next
    case False
    then obtain ps2 where rec: "rr_pass q ps t sched = (ps2, t', sched')" and ps': "ps' = p # ps2"
      using Cons.prems(2) by (auto split: prod.splits)
    show ?thesis
    proof (cases "0 < remainingTime p")
      case True
      then show ?thesis unfolding ps' by simp
    next
      case False
      with Cons.prems(1) have "list_ex (\<lambda>p. 0 < remainingTime p) ps" by simp
      from Cons.IH [OF this rec] show ?thesis unfolding ps' by simp
    qed
  qed
qed

lemma rr_while_quantum_not_positive:
  assumes "q \<le> 0" and "list_ex (\<lambda>p. 0 < remainingTime p) queue"
  shows "rr_while q queue t sched = None"
proof (cases "rr_while q queue t sched")
  case None
  then show ?thesis .
next
  case (Some y)
  have "\<not> (q0 \<le> 0 \<and> list_ex (\<lambda>p. 0 < remainingTime p) queue0)"
    if "rr_while q0 queue0 t0 sched0 = Some y0" for q0 queue0 t0 sched0 y0
  proof (rule rr_while.raw_induct
      [where P = "\<lambda>q0 queue0 t0 sched0 y0.
         \<not> (q0 \<le> 0 \<and> list_ex (\<lambda>p. 0 < remainingTime p) queue0)", OF _ that])
    fix f q0 queue0 t0 sched0 y0
    assume IH: "\<And>q0 queue0 t0 sched0 y0. f q0 queue0 t0 sched0 = Some y0 \<Longrightarrow>
        \<not> (q0 \<le> 0 \<and> list_ex (\<lambda>p. 0 < remainingTime p) queue0)"
      and body: "(if list_ex (\<lambda>p. 0 < remainingTime p) queue0
          then case rr_pass q0 queue0 t0 sched0 of
               (queue', currentTime', scheduled') \<Rightarrow> f q0 queue' currentTime' scheduled'
          else Some (queue0, t0, sched0)) = Some y0"
    show "\<not> (q0 \<le> 0 \<and> list_ex (\<lambda>p. 0 < remainingTime p) queue0)"
    proof
      assume a: "q0 \<le> 0 \<and> list_ex (\<lambda>p. 0 < remainingTime p) queue0"
      obtain queue1 t1 sched1 where pass: "rr_pass q0 queue0 t0 sched0 = (queue1, t1, sched1)"
        by (cases "rr_pass q0 queue0 t0 sched0") auto
      with body a have "f q0 queue1 t1 sched1 = Some y0" by simp
      from IH [OF this] a have "\<not> list_ex (\<lambda>p. 0 < remainingTime p) queue1" by simp
      moreover have "list_ex (\<lambda>p. 0 < remainingTime p) queue1"
        using rr_pass_keeps_unfinished [OF _ _ pass] a by blast
      ultimately show False by simp
    qed
  qed
  from this [OF Some] assms show ?thesis by simp
qed

lemma rr_queue_in_range:
  assumes "in_range ps"
  shows "list_all (\<lambda>p. 0 \<le> remainingTime p) (rr_queue ps)"
    and "0 + remaining_total (rr_queue ps) \<le> 2 ^ 53"
proof -
  show "list_all (\<lambda>p. 0 \<le> remainingTime p) (rr_queue ps)"
    using assms by (auto simp: in_range_def rr_queue_def list_all_iff)
  have "remaining_total (rr_queue ps) = sum_list (map burstTime (sort_key arrivalTime ps))"
    by (simp add: remaining_total_def rr_queue_def o_def)
  also have "\<dots> = sum_list (map burstTime ps)" by (rule sum_bursts_sort_key)
  finally show "0 + remaining_total (rr_queue ps) \<le> 2 ^ 53"
    using in_range_clock_fits [OF assms] by (simp add: clock_fits_def)
qed

lemma scheduleRoundRobin_in_range:
  assumes "in_range ps" and "scheduleRoundRobin ps quantum = Some tr"
  shows "chronological tr \<and> slices_within (2 ^ 53) tr"
proof -
  from assms(2) obtain queue' t' where
    ret: "rr_while quantum (rr_queue ps) 0 [] = Some (queue', t', tr)"
    by (auto simp: scheduleRoundRobin_def)
  show ?thesis
  proof (cases "1 \<le> quantum")
    case True
    then have q0: "0 \<le> quantum" by simp
    have "chronological tr"
      using rr_while_trace [OF ret True trace_upto_Nil] by (simp add: trace_upto_def)
    moreover have "slices_within (2 ^ 53) tr"
      using rr_while_within [OF ret q0 rr_queue_in_range(1) [OF assms(1)] _
          rr_queue_in_range(2) [OF assms(1)]]
      by (simp add: slices_within_def)
    ultimately show ?thesis ..
  next
    case False
    then have q: "quantum \<le> 0" by simp
    have fin: "\<not> list_ex (\<lambda>p. 0 < remainingTime p) (rr_queue ps)"
      using rr_while_quantum_not_positive [OF q] ret by fastforce
    have "rr_while quantum (rr_queue ps) 0 [] = Some (rr_queue ps, 0, [])"
      by (subst rr_while.simps) (simp add: fin)
    with ret have "tr = []" by simp
    then show ?thesis by (simp add: chronological_def slices_within_def)
  qed
qed

text \<open>
  C10, amended. For every process list in the exact range (no negative arrival or
  burst time, every arrival time plus the sum of all burst times at most \<open>2 ^ 53\<close>),
  every scheduling algorithm and every quantum, a trace that the scheduler returns is
  chronologically consistent: the slices are in non-decreasing order of \<open>startTime\<close>,
  each slice starts no earlier than the previous slice's \<open>startTime + duration\<close>, and
  no slice starts before the arrival time of its process. Every slice of it lies
  between clock \<open>0\<close> and clock \<open>2 ^ 53\<close>, so no number of the trace is rounded. (With a
  quantum below \<open>1\<close>, Round Robin returns only when no process has work to do, and then
  the trace is empty.)
\<close>

theorem trace_chronological_in_exact_range:
  assumes "in_range ps" and "schedule alg ps quantum = Some tr"
  shows "chronological tr \<and> slices_within (2 ^ 53) tr"
proof (cases alg)
  case FCFS
  then have "tr = scheduleFCFS ps" using assms(2) by simp
  then show ?thesis
    using scheduleFCFS_np [OF in_range_burst [OF assms(1)]] scheduleFCFS_within [OF assms(1)]
    by (auto simp: np_upto_def trace_upto_def)
next
  case SJF
  then have "tr = scheduleSJF ps" using assms(2) by simp
  then show ?thesis
    using scheduleSJF_np [OF in_range_burst [OF assms(1)]]
      ready_queue_within [OF assms(1), of burstTime]
    by (auto simp: np_upto_def trace_upto_def scheduleSJF_def)
next
  case Priority
  then have "tr = schedulePriority ps" using assms(2) by simp
  then show ?thesis
    using schedulePriority_np [OF in_range_burst [OF assms(1)]]
      ready_queue_within [OF assms(1), of priority]
    by (auto simp: np_upto_def trace_upto_def schedulePriority_def)
next
  case RR
  then show ?thesis using assms scheduleRoundRobin_in_range by simp
qed

lemma scenario_rr: "schedule RR scenario 4 = Some
  [\<lparr>proc_id = 1, name = ''P1'', arrivalTime = 0, burstTime = 5,
      priority = 1, remainingTime = 5, waitingTime = 0, turnaroundTime = 0,
      completionTime = 0, status = ''ready'', startTime = 0, duration = 4\<rparr>,
   \<lparr>proc_id = 2, name = ''P2'', arrivalTime = 1, burstTime = 3,
      priority = 1, remainingTime = 3, waitingTime = 0, turnaroundTime = 0,
      completionTime = 0, status = ''ready'', startTime = 4, duration = 3\<rparr>,
   \<lparr>proc_id = 3, name = ''P3'', arrivalTime = 2, burstTime = 8,
      priority = 1, remainingTime = 8, waitingTime = 0, turnaroundTime = 0,
      completionTime = 0, status = ''ready'', startTime = 7, duration = 4\<rparr>,
   \<lparr>proc_id = 1, name = ''P1'', arrivalTime = 0, burstTime = 5,
      priority = 1, remainingTime = 1, waitingTime = 0, turnaroundTime = 0,
      completionTime = 0, status = ''ready'', startTime = 11, duration = 1\<rparr>,
   \<lparr>proc_id = 3, name = ''P3'', arrivalTime = 2, burstTime = 8,
      priority = 1, remainingTime = 4, waitingTime = 0, turnaroundTime = 0,
      completionTime = 0, status = ''ready'', startTime = 12, duration = 4\<rparr>]"
  by code_simp

theorem trace_chronological_in_exact_range_witness:
  "in_range scenario \<and>
   (\<exists>tr. schedule RR scenario 4 = Some tr \<and> map startTime tr = [0, 4, 7, 11, 12] \<and>
      map duration tr = [4, 3, 4, 1, 4] \<and> chronological tr \<and> slices_within (2 ^ 53) tr) \<and>
   chronological (scheduleFCFS scenario) \<and> chronological (scheduleSJF scenario) \<and>
   chronological (schedulePriority scenario)"
proof -
  have v: "in_range scenario"
    by (simp add: in_range_def scenario_def addProcess_def)
  have "chronological (scheduleFCFS scenario)"
    using trace_chronological_in_exact_range [OF v, of FCFS] by simp
  moreover have "chronological (scheduleSJF scenario)"
    using trace_chronological_in_exact_range [OF v, of SJF] by simp
  moreover have "chronological (schedulePriority scenario)"
    using trace_chronological_in_exact_range [OF v, of Priority] by simp
  moreover have "\<exists>tr. schedule RR scenario 4 = Some tr \<and> map startTime tr = [0, 4, 7, 11, 12] \<and>
      map duration tr = [4, 3, 4, 1, 4] \<and> chronological tr \<and> slices_within (2 ^ 53) tr"
    using trace_chronological_in_exact_range [OF v scenario_rr] scenario_rr by simp
  ultimately show ?thesis using v by blast
qed

text \<open>
  C10 as stated, for every trace a scheduler returns, fails on a process with a
  negative burst time, which the page accepts: for the bursts \<open>5\<close>, \<open>-3\<close>, \<open>2\<close> and the
  arrival times \<open>0\<close>, \<open>1\<close>, \<open>2\<close>, \<open>scheduleFCFS\<close> returns the start times \<open>0\<close>, \<open>5\<close>, \<open>2\<close>,
  which are not in non-decreasing order.
\<close>

theorem negative_burst_trace_not_chronological:
  "schedule FCFS negative_burst 4 = Some (scheduleFCFS negative_burst) \<and>
   map startTime (scheduleFCFS negative_burst) = [0, 5, 2] \<and>
   map duration (scheduleFCFS negative_burst) = [5, - 3, 2] \<and>
   \<not> chronological (scheduleFCFS negative_burst)"
  by (simp add: negative_burst_def scheduleFCFS_def addProcess_def spread_def
      run_to_completion_def Let_def chronological_def)

lemma rr_proc_ok_mono: "rr_proc_ok t p \<Longrightarrow> t \<le> t' \<Longrightarrow> rr_proc_ok t' p"
  by (auto simp: rr_proc_ok_def)

lemma rr_pass_ok:
  "1 \<le> q \<Longrightarrow> list_all (rr_proc_ok t) ps \<Longrightarrow> rr_pass q ps t sched = (ps', t', sched') \<Longrightarrow>
   t \<le> t' \<and> list_all (rr_proc_ok t') ps'"
proof (induction ps arbitrary: t sched ps')
  case Nil
  then show ?case by simp
next
  case (Cons p ps)
  have p_ok: "rr_proc_ok t p" and ps_ok: "list_all (rr_proc_ok t) ps"
    using Cons.prems(2) by simp_all
  show ?case
  proof (cases "remainingTime p > 0 \<and> arrivalTime p \<le> t")
    case True
    let ?e = "min q (remainingTime p)"
    let ?t1 = "t + ?e"
    let ?p1 = "p\<lparr>remainingTime := remainingTime p - ?e\<rparr>"
    let ?p2 = "if remainingTime ?p1 = 0
               then ?p1\<lparr>completionTime := ?t1, turnaroundTime := ?t1 - arrivalTime ?p1,
                       waitingTime := ?t1 - arrivalTime ?p1 - burstTime ?p1\<rparr>
               else ?p1"
    have e: "1 \<le> ?e" "?e \<le> remainingTime p" using True Cons.prems(1) by simp_all
    obtain ps2 where rec: "rr_pass q ps ?t1 (sched @ [spread p t ?e]) = (ps2, t', sched')"
      and ps': "ps' = ?p2 # ps2"
      using Cons.prems(3) True by (auto simp: Let_def split: prod.splits)
    have "list_all (rr_proc_ok ?t1) ps"
      using ps_ok e by (auto simp: list_all_iff intro: rr_proc_ok_mono)
    from Cons.IH [OF Cons.prems(1) this rec]
    have le: "?t1 \<le> t'" and ok2: "list_all (rr_proc_ok t') ps2" by simp_all
    have "rr_proc_ok ?t1 ?p2"
      using p_ok True e by (auto simp: rr_proc_ok_def)
    then have "rr_proc_ok t' ?p2" using le by (rule rr_proc_ok_mono)
    moreover have "t \<le> t'" using le e(1) by linarith
    ultimately show ?thesis using ok2 ps' by simp
  next
    case False
    then obtain ps2 where rec: "rr_pass q ps t sched = (ps2, t', sched')" and ps': "ps' = p # ps2"
      using Cons.prems(3) by (auto split: prod.splits)
    from Cons.IH [OF Cons.prems(1) ps_ok rec]
    have le: "t \<le> t'" and ok2: "list_all (rr_proc_ok t') ps2" by simp_all
    then show ?thesis using p_ok ps' by (auto intro: rr_proc_ok_mono)
  qed
qed

lemma rr_while_ok:
  assumes ret: "rr_while q queue t sched = Some (queue', t', sched')"
    and q: "1 \<le> q" and inv: "list_all (rr_proc_ok t) queue"
  shows "list_all rr_finished queue'"
proof -
  have "1 \<le> q \<longrightarrow> list_all (rr_proc_ok t) queue \<longrightarrow> list_all rr_finished (fst (queue', t', sched'))"
  proof (rule rr_while.raw_induct
      [where P = "\<lambda>q queue t sched y.
         1 \<le> q \<longrightarrow> list_all (rr_proc_ok t) queue \<longrightarrow> list_all rr_finished (fst y)",
       OF _ ret])
    fix f q queue t sched y
    assume IH: "\<And>q queue t sched y. f q queue t sched = Some y \<Longrightarrow>
        1 \<le> q \<longrightarrow> list_all (rr_proc_ok t) queue \<longrightarrow> list_all rr_finished (fst y)"
      and body: "(if list_ex (\<lambda>p. 0 < remainingTime p) queue
          then case rr_pass q queue t sched of
               (queue', currentTime', scheduled') \<Rightarrow> f q queue' currentTime' scheduled'
          else Some (queue, t, sched)) = Some y"
    show "1 \<le> q \<longrightarrow> list_all (rr_proc_ok t) queue \<longrightarrow> list_all rr_finished (fst y)"
    proof (intro impI)
      assume qq: "1 \<le> q" and ok: "list_all (rr_proc_ok t) queue"
      show "list_all rr_finished (fst y)"
      proof (cases "list_ex (\<lambda>p. 0 < remainingTime p) queue")
        case True
        obtain queue1 t1 sched1 where pass: "rr_pass q queue t sched = (queue1, t1, sched1)"
          by (cases "rr_pass q queue t sched") auto
        with body True have "f q queue1 t1 sched1 = Some y" by simp
        moreover have "list_all (rr_proc_ok t1) queue1"
          using rr_pass_ok [OF qq ok pass] by simp
        ultimately show ?thesis using IH qq by blast
      next
        case False
        then have "\<forall>p\<in>set queue. remainingTime p = 0"
          using ok by (force simp: list_ex_iff list_all_iff rr_proc_ok_def)
        then have "list_all rr_finished queue"
          using ok by (auto simp: list_all_iff rr_proc_ok_def rr_finished_def metrics_ok_def)
        with body False show ?thesis by auto
      qed
    qed
  qed
  with q inv show ?thesis by simp
qed

lemma round_robin_final_processes:
  assumes "valid_input ps" and "1 \<le> quantum"
    and "rr_while quantum (rr_queue ps) 0 [] = Some (queue', t', sched')"
    and "in_range ps"
  shows "list_all rr_finished queue'"
proof -
  have "list_all (rr_proc_ok 0) (rr_queue ps)"
    using assms(1) by (auto simp: valid_input_def list_all_iff rr_queue_def rr_proc_ok_def)
  from rr_while_ok [OF assms(3) assms(2) this] show ?thesis .
qed

lemma round_robin_one_process:
  "schedule RR [addProcess 1 ''P1'' 0 5 1] 4 = Some
     [\<lparr>proc_id = 1, name = ''P1'', arrivalTime = 0, burstTime = 5,
        priority = 1, remainingTime = 5, waitingTime = 0, turnaroundTime = 0,
        completionTime = 0, status = ''ready'', startTime = 0, duration = 4\<rparr>,
      \<lparr>proc_id = 1, name = ''P1'', arrivalTime = 0, burstTime = 5,
        priority = 1, remainingTime = 1, waitingTime = 0, turnaroundTime = 0,
        completionTime = 0, status = ''ready'', startTime = 4, duration = 1\<rparr>]"
  by code_simp

text \<open>
  C4. The claim: for all four algorithms every process in the returned result has
  \<open>waitingTime \<ge> 0\<close> and \<open>turnaroundTime \<ge> burstTime\<close>. The three non-preemptive
  schedulers write the metrics before they push the entry (\<open>non_preemptive_metrics\<close>).
  Round Robin pushes the entry first and writes the metrics on the process object
  afterwards (\<open>round_robin_final_processes\<close>), so the entries it returns carry the
  metrics the process had before they were written: for the process (P1, arrival 0, burst 5) as
  \<open>addProcess\<close> builds it and quantum 4, both returned entries have
  \<open>turnaroundTime = 0\<close>, below the burst time 5.
\<close>

theorem round_robin_returns_stale_metrics:
  "valid_input [addProcess 1 ''P1'' 0 5 1] \<and>
   (\<exists>tr. schedule RR [addProcess 1 ''P1'' 0 5 1] 4 = Some tr \<and>
      tr = [\<lparr>proc_id = 1, name = ''P1'', arrivalTime = 0, burstTime = 5,
              priority = 1, remainingTime = 5, waitingTime = 0, turnaroundTime = 0,
              completionTime = 0, status = ''ready'', startTime = 0, duration = 4\<rparr>,
            \<lparr>proc_id = 1, name = ''P1'', arrivalTime = 0, burstTime = 5,
              priority = 1, remainingTime = 1, waitingTime = 0, turnaroundTime = 0,
              completionTime = 0, status = ''ready'', startTime = 4, duration = 1\<rparr>] \<and>
      map turnaroundTime tr = [0, 0] \<and> map burstTime tr = [5, 5] \<and>
      \<not> list_all metrics_ok tr)"
proof (intro conjI exI)
  show "valid_input [addProcess 1 ''P1'' 0 5 1]"
    by (simp add: valid_input_def addProcess_def)
  show "schedule RR [addProcess 1 ''P1'' 0 5 1] 4 = Some
     [\<lparr>proc_id = 1, name = ''P1'', arrivalTime = 0, burstTime = 5,
        priority = 1, remainingTime = 5, waitingTime = 0, turnaroundTime = 0,
        completionTime = 0, status = ''ready'', startTime = 0, duration = 4\<rparr>,
      \<lparr>proc_id = 1, name = ''P1'', arrivalTime = 0, burstTime = 5,
        priority = 1, remainingTime = 1, waitingTime = 0, turnaroundTime = 0,
        completionTime = 0, status = ''ready'', startTime = 4, duration = 1\<rparr>]"
    by (rule round_robin_one_process)
qed (simp_all add: metrics_ok_def)

text \<open>
  C8. For the processes (P1, arrival 0, burst 5), (P2, arrival 1, burst 3),
  (P3, arrival 2, burst 8), submitted in this order, FCFS returns the completion times
  5, 8, 16 and the waiting times 0, 4, 6.
\<close>

theorem fcfs_scenario_A:
  "map completionTime
     (scheduleFCFS [addProcess 1 ''P1'' 0 5 1, addProcess 2 ''P2'' 1 3 1,
                    addProcess 3 ''P3'' 2 8 1]) = [5, 8, 16] \<and>
   map waitingTime
     (scheduleFCFS [addProcess 1 ''P1'' 0 5 1, addProcess 2 ''P2'' 1 3 1,
                    addProcess 3 ''P3'' 2 8 1]) = [0, 4, 6] \<and>
   map name
     (scheduleFCFS [addProcess 1 ''P1'' 0 5 1, addProcess 2 ''P2'' 1 3 1,
                    addProcess 3 ''P3'' 2 8 1]) = [''P1'', ''P2'', ''P3'']"
  by (simp add: scheduleFCFS_def addProcess_def run_to_completion_def spread_def)

subsection \<open>Memory\<close>

lemma no_candidate_filter:
  assumes "\<not> (\<exists>b\<in>set bs. block_status b = Free \<and> sz \<le> block_size b)"
  shows "filter (\<lambda>i. sz \<le> block_size (bs ! i)) (freeBlocks bs) = []"
  using assms by (auto simp: freeBlocks_def filter_empty_conv)

lemma no_candidate_select:
  assumes "\<not> (\<exists>b\<in>set bs. block_status b = Free \<and> sz \<le> block_size b)"
  shows "selectBlock alg bs sz = None"
proof (cases alg)
  case First
  have "\<not> (\<exists>i\<in>set (freeBlocks bs). sz \<le> block_size (bs ! i))"
    using assms by (auto simp: freeBlocks_def)
  then show ?thesis using First by (simp add: find_None_iff)
next
  case Best
  then show ?thesis by (simp add: no_candidate_filter [OF assms])
next
  case Worst
  then show ?thesis by (simp add: no_candidate_filter [OF assms])
qed

text \<open>
  C6. For every block list and every request size above 0: if no free block is large
  enough, the allocation reports the failure \<open>InsufficientSpace\<close>, whatever the fit
  algorithm, and the block list after the call is the block list before it.
\<close>

theorem allocation_failure_is_atomic:
  assumes "0 < requestSize"
    and "\<not> (\<exists>b\<in>set bs. block_status b = Free \<and> requestSize \<le> block_size b)"
  shows "allocateMemory requestSize alg bs = (Inl InsufficientSpace, bs)"
  using assms(1) no_candidate_select [OF assms(2)] by (simp add: allocateMemory_def)

theorem allocation_failure_is_atomic_witness:
  "(0::int) < 100 \<and>
   \<not> (\<exists>b\<in>set initial_memoryBlocks. block_status b = Free \<and> 100 \<le> block_size b) \<and>
   allocateMemory 100 First initial_memoryBlocks = (Inl InsufficientSpace, initial_memoryBlocks) \<and>
   allocateMemory 100 Best initial_memoryBlocks = (Inl InsufficientSpace, initial_memoryBlocks) \<and>
   allocateMemory 100 Worst initial_memoryBlocks = (Inl InsufficientSpace, initial_memoryBlocks)"
proof -
  have h: "\<not> (\<exists>b\<in>set initial_memoryBlocks. block_status b = Free \<and> 100 \<le> block_size b)"
    by (simp add: initial_memoryBlocks_def)
  show ?thesis using allocation_failure_is_atomic [OF _ h, of _] h by simp
qed

lemma place_Cons:
  "fst (place (b # bs) i a) =
     b\<lparr>block_id := i + 1, startAddress := a, endAddress := a + block_size b\<rparr>
       # fst (place bs (Suc i) (a + block_size b))"
  "snd (place (b # bs) i a) = snd (place bs (Suc i) (a + block_size b))"
  by (simp_all add: case_prod_beta)

lemma place_fields:
  "map block_size (fst (place bs i a)) = map block_size bs"
  "map block_status (fst (place bs i a)) = map block_status bs"
  "map processName (fst (place bs i a)) = map processName bs"
  "length (fst (place bs i a)) = length bs"
  by (induction bs arbitrary: i a) (simp_all add: place_Cons del: place.simps(2))

lemma place_lastAddress: "snd (place bs i a) = a + sum_list (map block_size bs)"
  by (induction bs arbitrary: i a) (simp_all add: place_Cons del: place.simps(2))

lemma place_starts_ge:
  "\<forall>b\<in>set bs. 0 \<le> block_size b \<Longrightarrow> \<forall>b\<in>set (fst (place bs i a)). a \<le> startAddress b"
proof (induction bs arbitrary: i a)
  case Nil
  then show ?case by simp
next
  case (Cons b bs)
  have "\<forall>c\<in>set (fst (place bs (Suc i) (a + block_size b))). a + block_size b \<le> startAddress c"
    using Cons by simp
  then show ?case using Cons.prems by (simp add: place_Cons del: place.simps(2)) force
qed

lemma place_sorted:
  "\<forall>b\<in>set bs. 0 \<le> block_size b \<Longrightarrow> sorted (map startAddress (fst (place bs i a)))"
proof (induction bs arbitrary: i a)
  case Nil
  then show ?case by simp
next
  case (Cons b bs)
  have "\<forall>c\<in>set (fst (place bs (Suc i) (a + block_size b))). a + block_size b \<le> startAddress c"
    using Cons.prems by (intro place_starts_ge) simp
  moreover have "sorted (map startAddress (fst (place bs (Suc i) (a + block_size b))))"
    using Cons by simp
  ultimately show ?case using Cons.prems
    by (simp add: place_Cons del: place.simps(2)) force
qed

lemma place_idem: "place (fst (place bs i a)) i a = place bs i a"
proof (induction bs arbitrary: i a)
  case Nil
  show ?case by simp
next
  case (Cons b bs)
  show ?case
    by (rule prod_eqI) (simp_all add: place_Cons Cons.IH del: place.simps(2))
qed

lemma filter_allocated_all:
  "\<forall>b\<in>set bs. block_status b = Allocated \<Longrightarrow> filter (\<lambda>b. block_status b = Allocated) bs = bs"
  by (induction bs) simp_all

text \<open>
  C7, amended. Compaction is idempotent on every block list whose allocated blocks
  have sizes that are not negative: compacting twice gives the list that compacting
  once gives, with the same ids, owners, sizes, addresses and statuses.
\<close>

theorem compaction_idempotent:
  assumes "\<forall>b\<in>set bs. block_status b = Allocated \<longrightarrow> 0 \<le> block_size b"
  shows "compactMemory (compactMemory bs) = compactMemory bs"
proof -
  define A where "A = sort_key startAddress (filter (\<lambda>b. block_status b = Allocated) bs)"
  define P where "P = fst (place A 0 0)"
  define T where "T = sum_list (map block_size A)"
  define F where "F = (if 0 < 1024 - T
      then [\<lparr>block_id = length P + 1, processName = None, block_size = 1024 - T,
              startAddress = snd (place A 0 0), endAddress = 1024, block_status = Free\<rparr>]
      else [])"
  have once: "compactMemory bs = P @ F"
    by (simp add: compactMemory_def A_def P_def T_def F_def Let_def split: prod.splits)
  have A_alloc: "\<forall>b\<in>set A. block_status b = Allocated" and A_size: "\<forall>b\<in>set A. 0 \<le> block_size b"
    using assms by (auto simp: A_def)
  have P_alloc: "\<forall>b\<in>set P. block_status b = Allocated"
  proof -
    have "set (map block_status P) = set (map block_status A)"
      by (simp only: P_def place_fields)
    then show ?thesis using A_alloc by (metis (no_types, lifting) image_iff list.set_map)
  qed
  have "filter (\<lambda>b. block_status b = Allocated) (P @ F) = P"
    using P_alloc by (simp add: F_def filter_allocated_all)
  moreover have "sort_key startAddress P = P"
    unfolding P_def using A_size by (intro sort_key_id_if_sorted place_sorted)
  moreover have "sum_list (map block_size P) = T"
    by (simp add: P_def T_def place_fields)
  moreover have "place P 0 0 = place A 0 0"
    by (simp add: P_def place_idem)
  ultimately have "compactMemory (P @ F) = P @ F"
    by (simp add: compactMemory_def Let_def F_def P_def split: prod.splits)
  then show ?thesis by (simp add: once)
qed

lemma compact_fragmented_layout:
  "compactMemory fragmented_layout =
     [\<lparr>block_id = 1, processName = Some ''OS'', block_size = 128, startAddress = 0,
       endAddress = 128, block_status = Allocated\<rparr>,
      \<lparr>block_id = 2, processName = Some ''P1'', block_size = 100, startAddress = 128,
       endAddress = 228, block_status = Allocated\<rparr>,
      \<lparr>block_id = 3, processName = Some ''P2'', block_size = 100, startAddress = 228,
       endAddress = 328, block_status = Allocated\<rparr>,
      \<lparr>block_id = 4, processName = Some ''P3'', block_size = 346, startAddress = 328,
       endAddress = 674, block_status = Allocated\<rparr>,
      \<lparr>block_id = 5, processName = None, block_size = 350, startAddress = 674,
       endAddress = 1024, block_status = Free\<rparr>]"
  by (simp add: compactMemory_def fragmented_layout_def Let_def)

theorem compaction_idempotent_witness:
  "list_all (\<lambda>b. 0 \<le> block_size b) fragmented_layout \<and>
   compactMemory (compactMemory fragmented_layout) = compactMemory fragmented_layout \<and>
   map block_size (compactMemory fragmented_layout) = [128, 100, 100, 346, 350] \<and>
   compactMemory fragmented_layout \<noteq> fragmented_layout"
proof -
  have h: "\<forall>b\<in>set fragmented_layout. block_status b = Allocated \<longrightarrow> 0 \<le> block_size b"
    by (simp add: fragmented_layout_def)
  have "compactMemory fragmented_layout \<noteq> fragmented_layout"
    by (simp add: compact_fragmented_layout) (simp add: fragmented_layout_def)
  moreover have "list_all (\<lambda>b. 0 \<le> block_size b) fragmented_layout"
    by (simp add: fragmented_layout_def)
  ultimately show ?thesis
    using compaction_idempotent [OF h] by (simp add: compact_fragmented_layout)
qed

text \<open>
  C7 as stated, for every block list, fails on a list the page can build: after the
  calls \<open>negative_size_calls\<close> the block of size \<open>-50\<close> lies between two blocks of size
  \<open>100\<close>. The first compaction gives it the start address \<open>228\<close> and the block after it
  the start address \<open>178\<close>; the second compaction sorts by these addresses, so it
  places the two blocks in the other order and at other addresses.
\<close>

theorem compaction_not_idempotent_after_negative_size:
  "map (\<lambda>b. (block_id b, startAddress b, endAddress b, block_status b))
     (compactMemory (memory_after negative_size_calls)) =
     [(1, 0, 128, Allocated), (2, 128, 228, Allocated), (3, 228, 178, Allocated),
      (4, 178, 278, Allocated), (5, 278, 1024, Free)] \<and>
   map (\<lambda>b. (block_id b, startAddress b, endAddress b, block_status b))
     (compactMemory (compactMemory (memory_after negative_size_calls))) =
     [(1, 0, 128, Allocated), (2, 128, 228, Allocated), (3, 228, 328, Allocated),
      (4, 328, 278, Allocated), (5, 278, 1024, Free)] \<and>
   compactMemory (compactMemory (memory_after negative_size_calls)) \<noteq>
   compactMemory (memory_after negative_size_calls)"
  by code_simp

lemma candidates_set:
  "set (filter (\<lambda>i. sz \<le> block_size (bs ! i)) (freeBlocks bs)) = {j. is_candidate bs sz j}"
  by (auto simp: freeBlocks_def is_candidate_def)

lemma candidates_sorted:
  "sorted (filter (\<lambda>i. sz \<le> block_size (bs ! i)) (freeBlocks bs))"
  by (simp add: freeBlocks_def sorted_wrt_filter)

lemma sort_key_head:
  assumes "sort_key f xs = y # ys"
  shows "y \<in> set xs" and "\<forall>x\<in>set xs. f y \<le> f x"
    and "\<exists>zs. filter (\<lambda>x. f x = f y) xs = y # zs"
proof -
  have "set (sort_key f xs) = set xs" by simp
  then show in_xs: "y \<in> set xs" unfolding assms by auto
  have "sorted (map f (sort_key f xs))" by (rule sorted_sort_key)
  then have "\<forall>x\<in>set (y # ys). f y \<le> f x" unfolding assms by auto
  moreover have "set (y # ys) = set xs" using assms [symmetric] by simp
  ultimately show "\<forall>x\<in>set xs. f y \<le> f x" by blast
  have "filter (\<lambda>x. f x = f y) xs = filter (\<lambda>x. f x = f y) (sort_key f xs)"
    by (rule sort_key_stable [symmetric])
  also have "\<dots> = y # filter (\<lambda>x. f x = f y) ys" unfolding assms by simp
  finally show "\<exists>zs. filter (\<lambda>x. f x = f y) xs = y # zs" by blast
qed

lemma best_fit_choice:
  assumes "selectBlock Best bs sz = Some i"
  shows "is_candidate bs sz i"
    and "\<forall>j. is_candidate bs sz j \<longrightarrow> block_size (bs ! i) \<le> block_size (bs ! j)"
    and "\<forall>j. is_candidate bs sz j \<and> block_size (bs ! j) = block_size (bs ! i) \<longrightarrow> i \<le> j"
proof -
  let ?xs = "filter (\<lambda>i. sz \<le> block_size (bs ! i)) (freeBlocks bs)"
  let ?f = "\<lambda>i. block_size (bs ! i)"
  from assms obtain ys where srt: "sort_key ?f ?xs = i # ys"
    by (auto split: list.splits)
  note h = sort_key_head [OF srt]
  from h(1) show "is_candidate bs sz i" using candidates_set [of sz bs] by auto
  from h(2) show "\<forall>j. is_candidate bs sz j \<longrightarrow> block_size (bs ! i) \<le> block_size (bs ! j)"
    using candidates_set [of sz bs] by auto
  from h(3) obtain zs where zs: "filter (\<lambda>x. ?f x = ?f i) ?xs = i # zs" by blast
  have "sorted (filter (\<lambda>x. ?f x = ?f i) ?xs)"
    using candidates_sorted [of sz bs] by (rule sorted_wrt_filter)
  then have le: "\<forall>j\<in>set (i # zs). i \<le> j" unfolding zs by auto
  show "\<forall>j. is_candidate bs sz j \<and> block_size (bs ! j) = block_size (bs ! i) \<longrightarrow> i \<le> j"
  proof (intro allI impI)
    fix j assume j: "is_candidate bs sz j \<and> block_size (bs ! j) = block_size (bs ! i)"
    then have "j \<in> set ?xs" using candidates_set [of sz bs] by auto
    with j have "j \<in> set (filter (\<lambda>x. ?f x = ?f i) ?xs)" by simp
    then show "i \<le> j" using le unfolding zs by blast
  qed
qed

lemma best_fit_finds:
  assumes "\<exists>j. is_candidate bs sz j"
  shows "\<exists>i. selectBlock Best bs sz = Some i"
proof -
  let ?xs = "filter (\<lambda>i. sz \<le> block_size (bs ! i)) (freeBlocks bs)"
  have "set ?xs \<noteq> {}" using assms candidates_set [of sz bs] by auto
  then have "sort_key (\<lambda>i. block_size (bs ! i)) ?xs \<noteq> []"
    by (metis set_empty set_sort)
  then show ?thesis by (auto split: list.splits)
qed

text \<open>
  C5. For every block list with a candidate and every request size above 0, Best-Fit
  selects a candidate of the smallest size, and among the candidates of that size the
  first of the list, which has the lowest \<open>startAddress\<close> when the list is in address
  order, as \<open>memoryBlocks\<close> always is. The chosen block is replaced by an allocated
  block of the requested size at the same \<open>startAddress\<close> and, when the chosen block was
  larger, a free block for the rest of it; the list is sorted by \<open>startAddress\<close> again.
  Scenario C is the instance with free blocks of 50, 200 and 100 KB and a request of
  80 KB: the 100 KB block is split into an allocated block of 80 and a free block of 20.
\<close>

theorem best_fit_selects_smallest_adequate_block:
  assumes "0 < requestSize" and "\<exists>j. is_candidate bs requestSize j"
  shows "\<exists>i newBlock remainder.
      selectBlock Best bs requestSize = Some i \<and> is_candidate bs requestSize i \<and>
      (\<forall>j. is_candidate bs requestSize j \<longrightarrow>
         block_size (bs ! i) \<le> block_size (bs ! j) \<and>
         (block_size (bs ! j) = block_size (bs ! i) \<longrightarrow>
            i \<le> j \<and> (sorted (map startAddress bs) \<longrightarrow>
                        startAddress (bs ! i) \<le> startAddress (bs ! j)))) \<and>
      allocateMemory requestSize Best bs =
        (Inr newBlock,
         sort_key startAddress (take i bs @ drop (Suc i) bs @ newBlock # remainder)) \<and>
      block_status newBlock = Allocated \<and> block_size newBlock = requestSize \<and>
      startAddress newBlock = startAddress (bs ! i) \<and>
      endAddress newBlock = startAddress (bs ! i) + requestSize \<and>
      (if requestSize < block_size (bs ! i)
       then \<exists>r. remainder = [r] \<and> block_status r = Free \<and>
              block_size r = block_size (bs ! i) - requestSize \<and>
              startAddress r = startAddress (bs ! i) + requestSize \<and>
              endAddress r = endAddress (bs ! i)
       else remainder = [])"
proof -
  from best_fit_finds [OF assms(2)] obtain i where sel: "selectBlock Best bs requestSize = Some i"
    by blast
  note c = best_fit_choice [OF sel]
  have tie: "startAddress (bs ! i) \<le> startAddress (bs ! j)"
    if "is_candidate bs requestSize j" "block_size (bs ! j) = block_size (bs ! i)"
      "sorted (map startAddress bs)" for j
  proof -
    have "i \<le> j" using c(3) that by blast
    moreover have "j < length bs" using that(1) by (simp add: is_candidate_def)
    ultimately have "map startAddress bs ! i \<le> map startAddress bs ! j"
      using that(3) by (simp add: sorted_iff_nth_mono del: nth_map)
    then show ?thesis using \<open>i \<le> j\<close> \<open>j < length bs\<close> by simp
  qed
  show ?thesis
  proof (cases "requestSize < block_size (bs ! i)")
    case True
    show ?thesis
      using assms(1) sel c tie True
      by (intro exI [of _ i]) (auto simp: allocateMemory_def Let_def)
  next
    case False
    show ?thesis
      using assms(1) sel c tie False
      by (intro exI [of _ i]) (auto simp: allocateMemory_def Let_def)
  qed
qed

lemma allocate_best_fit_80:
  "allocateMemory 80 Best fragmented_layout =
     (Inr \<lparr>block_id = 8, processName = Some ''P4'', block_size = 80, startAddress = 578,
           endAddress = 658, block_status = Allocated\<rparr>,
      [\<lparr>block_id = 1, processName = Some ''OS'', block_size = 128, startAddress = 0,
        endAddress = 128, block_status = Allocated\<rparr>,
       \<lparr>block_id = 7, processName = None, block_size = 50, startAddress = 128,
        endAddress = 178, block_status = Free\<rparr>,
       \<lparr>block_id = 3, processName = Some ''P1'', block_size = 100, startAddress = 178,
        endAddress = 278, block_status = Allocated\<rparr>,
       \<lparr>block_id = 8, processName = None, block_size = 200, startAddress = 278,
        endAddress = 478, block_status = Free\<rparr>,
       \<lparr>block_id = 5, processName = Some ''P2'', block_size = 100, startAddress = 478,
        endAddress = 578, block_status = Allocated\<rparr>,
       \<lparr>block_id = 8, processName = Some ''P4'', block_size = 80, startAddress = 578,
        endAddress = 658, block_status = Allocated\<rparr>,
       \<lparr>block_id = 8, processName = None, block_size = 20, startAddress = 658,
        endAddress = 678, block_status = Free\<rparr>,
       \<lparr>block_id = 6, processName = Some ''P3'', block_size = 346, startAddress = 678,
        endAddress = 1024, block_status = Allocated\<rparr>])"
  by code_simp

lemma select_best_fit_80: "selectBlock Best fragmented_layout 80 = Some 5"
  by code_simp

theorem best_fit_scenario_C:
  "(0::int) < 80 \<and> (\<exists>j. is_candidate fragmented_layout 80 j) \<and>
   map block_size (filter (\<lambda>b. block_status b = Free) fragmented_layout) = [50, 200, 100] \<and>
   selectBlock Best fragmented_layout 80 = Some 5 \<and>
   block_size (fragmented_layout ! 5) = 100 \<and>
   (\<exists>newBlock remainder layout.
      allocateMemory 80 Best fragmented_layout = (Inr newBlock, layout) \<and>
      layout = take 5 fragmented_layout @ newBlock # remainder # drop 6 fragmented_layout \<and>
      (block_status newBlock, block_size newBlock, startAddress newBlock, endAddress newBlock)
        = (Allocated, 80, 578, 658) \<and>
      (block_status remainder, block_size remainder, startAddress remainder, endAddress remainder)
        = (Free, 20, 658, 678))"
proof -
  have c: "\<exists>j. is_candidate fragmented_layout 80 j"
    by (rule exI [of _ 5]) (simp add: is_candidate_def fragmented_layout_def)
  have f: "map block_size (filter (\<lambda>b. block_status b = Free) fragmented_layout) = [50, 200, 100]"
    and s: "block_size (fragmented_layout ! 5) = 100"
    by (simp_all add: fragmented_layout_def)
  have "take 5 fragmented_layout @ x # y # drop 6 fragmented_layout =
      [fragmented_layout ! 0, fragmented_layout ! 1, fragmented_layout ! 2, fragmented_layout ! 3,
       fragmented_layout ! 4, x, y, fragmented_layout ! 6]" for x y
    by (simp add: fragmented_layout_def)
  then have "\<exists>newBlock remainder layout.
      allocateMemory 80 Best fragmented_layout = (Inr newBlock, layout) \<and>
      layout = take 5 fragmented_layout @ newBlock # remainder # drop 6 fragmented_layout \<and>
      (block_status newBlock, block_size newBlock, startAddress newBlock, endAddress newBlock)
        = (Allocated, 80, 578, 658) \<and>
      (block_status remainder, block_size remainder, startAddress remainder, endAddress remainder)
        = (Free, 20, 658, 678)"
    by (simp add: allocate_best_fit_80) (simp add: fragmented_layout_def)
  then show ?thesis
    using best_fit_selects_smallest_adequate_block [OF _ c] c f s select_best_fit_80
    by simp
qed

lemma tiles_append: "tiles a (xs @ ys) e \<longleftrightarrow> (\<exists>m. tiles a xs m \<and> tiles m ys e)"
  by (induction xs arbitrary: a) auto

lemma tiles_sum: "tiles a bs e \<Longrightarrow> sum_list (map block_size bs) = e - a"
  by (induction bs arbitrary: a) auto

lemma tiles_le: "tiles a bs e \<Longrightarrow> a \<le> e"
proof (induction bs arbitrary: a)
  case Nil
  then show ?case by simp
next
  case (Cons c bs)
  then have "tiles (endAddress c) bs e" and "a < endAddress c"
    unfolding tiles.simps by auto
  with Cons.IH [of "endAddress c"] show ?case by simp
qed

lemma tiles_bounds:
  "tiles a bs e \<Longrightarrow> b \<in> set bs \<Longrightarrow>
   a \<le> startAddress b \<and> endAddress b \<le> e \<and> 0 < block_size b \<and>
   endAddress b = startAddress b + block_size b"
proof (induction bs arbitrary: a)
  case Nil
  then show ?case by simp
next
  case (Cons c bs)
  show ?case
  proof (cases "b = c")
    case True
    then show ?thesis using Cons.prems(1) tiles_le [of "endAddress c" bs e] by auto
  next
    case False
    then have "b \<in> set bs" using Cons.prems(2) by simp
    from Cons.IH [OF _ this, of "endAddress c"] Cons.prems(1) show ?thesis by auto
  qed
qed

lemma tiles_in_order:
  "tiles a bs e \<Longrightarrow> sorted_wrt (\<lambda>x y. endAddress x \<le> startAddress y) bs"
proof (induction bs arbitrary: a)
  case Nil
  then show ?case by simp
next
  case (Cons c bs)
  then have t: "tiles (endAddress c) bs e" unfolding tiles.simps by blast
  then have "\<forall>b\<in>set bs. endAddress c \<le> startAddress b"
    using tiles_bounds by blast
  then show ?case using Cons.IH [OF t] by simp
qed

lemma tiles_strict_starts:
  "tiles a bs e \<Longrightarrow> sorted_wrt (<) (map startAddress bs)"
proof (induction bs arbitrary: a)
  case Nil
  then show ?case by simp
next
  case (Cons c bs)
  then have t: "tiles (endAddress c) bs e" unfolding tiles.simps by blast
  then have "\<forall>b\<in>set bs. endAddress c \<le> startAddress b"
    using tiles_bounds by blast
  moreover have "startAddress c < endAddress c" using Cons.prems by simp
  ultimately have "\<forall>b\<in>set bs. startAddress c < startAddress b" by force
  then show ?case using Cons.IH [OF t] by simp
qed

lemma layout_ok_partition:
  assumes "layout_ok bs"
  shows "partition_ok bs"
proof -
  have t: "tiles 0 bs 1024" using assms by (simp add: layout_ok_def)
  have "sum_list (map block_size bs) = 1024" using tiles_sum [OF t] by simp
  moreover have "pairwise_disjoint bs"
  proof -
    have "endAddress (bs ! i) \<le> startAddress (bs ! j)" if "i < j" "j < length bs" for i j
      using tiles_in_order [OF t] that by (simp add: sorted_wrt_iff_nth_less)
    then show ?thesis
      unfolding pairwise_disjoint_def by (metis nat_neq_iff)
  qed
  moreover have "list_all (\<lambda>b. endAddress b - startAddress b = block_size b) bs"
    using tiles_bounds [OF t] by (auto simp: list_all_iff)
  moreover have "sorted (map startAddress bs)"
    using tiles_strict_starts [OF t] by (simp add: strict_sorted_iff)
  ultimately show ?thesis by (simp add: partition_ok_def)
qed

lemma select_candidate:
  assumes "selectBlock alg bs sz = Some i"
  shows "is_candidate bs sz i"
proof (cases alg)
  case First
  with assms have "i \<in> set (freeBlocks bs)" and "sz \<le> block_size (bs ! i)"
    by (auto simp: find_Some_iff)
  then show ?thesis by (auto simp: freeBlocks_def is_candidate_def)
next
  case Best
  with assms show ?thesis by (simp add: best_fit_choice(1))
next
  case Worst
  with assms obtain ys where
    "sort_key (\<lambda>i. - block_size (bs ! i))
       (filter (\<lambda>i. sz \<le> block_size (bs ! i)) (freeBlocks bs)) = i # ys"
    by (auto split: list.splits)
  from sort_key_head(1) [OF this] show ?thesis using candidates_set [of sz bs] by auto
qed

lemma sort_into_place:
  assumes "tiles a (pre @ mid @ suf) e"
  shows "sort_key startAddress (pre @ suf @ mid) = pre @ mid @ suf"
proof (rule sort_key_inj_key_eq)
  show "mset (pre @ suf @ mid) = mset (pre @ mid @ suf)" by simp
  have strict: "sorted_wrt (<) (map startAddress (pre @ mid @ suf))"
    using assms by (rule tiles_strict_starts)
  then show "sorted (map startAddress (pre @ mid @ suf))"
    by (simp only: strict_sorted_iff)
  from strict have "distinct (map startAddress (pre @ mid @ suf))"
    by (simp only: strict_sorted_iff)
  then have "inj_on startAddress (set (pre @ mid @ suf))"
    by (simp only: distinct_map)
  moreover have "set (pre @ suf @ mid) = set (pre @ mid @ suf)" by auto
  ultimately show "inj_on startAddress (set (pre @ suf @ mid))" by simp
qed

lemma allocate_layout:
  assumes ok: "layout_ok bs" and sz: "0 \<le> sizeInput"
  shows "layout_ok (snd (allocateMemory sizeInput alg bs))"
proof -
  define processSize where "processSize = (if sizeInput = 0 then 100 else sizeInput)"
  have pos: "0 < processSize" using sz by (simp add: processSize_def)
  show ?thesis
  proof (cases "selectBlock alg bs processSize")
    case None
    then show ?thesis using ok by (simp add: allocateMemory_def processSize_def)
  next
    case (Some i)
    from select_candidate [OF Some] have i: "i < length bs"
      and free: "block_status (bs ! i) = Free" and fits: "processSize \<le> block_size (bs ! i)"
      by (simp_all add: is_candidate_def)
    from ok obtain os rest where bs: "bs = os # rest"
      and os: "processName os = Some ''OS''" "block_size os = 128" "block_status os = Allocated"
      and rest: "list_all (\<lambda>b. processName b \<noteq> Some ''OS'') rest"
      by (auto simp: layout_ok_def split: list.splits)
    from free os(3) bs obtain k where k: "i = Suc k" by (cases i) auto
    define b where "b = bs ! i"
    define pre where "pre = take k rest"
    define suf where "suf = drop (Suc k) rest"
    have k_len: "k < length rest" using i bs k by simp
    have b_rest: "b = rest ! k" using bs k by (simp add: b_def)
    have rest_split: "rest = pre @ b # suf"
      unfolding pre_def suf_def b_rest using k_len by (rule id_take_nth_drop)
    define newBlock where "newBlock =
      \<lparr>block_id = length bs + 1,
       processName = Some (''P'' @ decimal
          (length (filter (\<lambda>b. block_status b = Allocated \<and> processName b \<noteq> Some ''OS'') bs) + 1)),
       block_size = processSize, startAddress = startAddress b,
       endAddress = startAddress b + processSize, block_status = Allocated\<rparr>"
    define remainder where "remainder =
      (if processSize < block_size b
       then [\<lparr>block_id = length (take i bs @ drop (Suc i) bs @ [newBlock]) + 1, processName = None,
               block_size = block_size b - processSize,
               startAddress = startAddress b + processSize,
               endAddress = endAddress b, block_status = Free\<rparr>]
       else [])"
    have unfold: "snd (allocateMemory sizeInput alg bs) =
        sort_key startAddress (take i bs @ drop (Suc i) bs @ newBlock # remainder)"
    proof (cases "processSize < block_size b")
      case True
      then show ?thesis
        using Some
        by (simp add: allocateMemory_def processSize_def [symmetric] Let_def b_def [symmetric]
            newBlock_def remainder_def del: sort_key_simps)
    next
      case False
      then show ?thesis
        using Some
        by (simp add: allocateMemory_def processSize_def [symmetric] Let_def b_def [symmetric]
            newBlock_def remainder_def del: sort_key_simps)
    qed
    have "take i bs @ drop (Suc i) bs @ newBlock # remainder =
        (os # pre) @ suf @ (newBlock # remainder)"
      by (simp add: bs k pre_def suf_def)
    with unfold have result: "snd (allocateMemory sizeInput alg bs) =
        sort_key startAddress ((os # pre) @ suf @ (newBlock # remainder))"
      by (simp only:)
    from ok have "tiles 0 bs 1024" by (simp add: layout_ok_def)
    then have "tiles 0 ((os # pre) @ b # suf) 1024"
      unfolding bs rest_split append_Cons .
    then obtain m where m1: "tiles 0 (os # pre) m" and m2: "tiles m (b # suf) 1024"
      unfolding tiles_append by blast
    from m2 have b_start: "startAddress b = m" and b_end: "endAddress b = m + block_size b"
      and suf_t: "tiles (endAddress b) suf 1024"
      unfolding tiles.simps by blast+
    have fits_b: "processSize \<le> block_size b" using fits by (simp add: b_def)
    have mid: "tiles m (newBlock # remainder @ suf) 1024"
      using pos fits_b b_start b_end suf_t
      by (auto simp: newBlock_def remainder_def)
    from mid have "tiles m ((newBlock # remainder) @ suf) 1024" unfolding append_Cons .
    with m1 have target: "tiles 0 ((os # pre) @ (newBlock # remainder) @ suf) 1024"
      using tiles_append [of 0 "os # pre" "(newBlock # remainder) @ suf" 1024] by blast
    have "snd (allocateMemory sizeInput alg bs) = (os # pre) @ (newBlock # remainder) @ suf"
      unfolding result using target by (rule sort_into_place)
    moreover have "list_all (\<lambda>b. processName b \<noteq> Some ''OS'') (pre @ (newBlock # remainder) @ suf)"
      using rest unfolding rest_split
      by (auto simp: newBlock_def remainder_def)
    ultimately show ?thesis using target os by (auto simp: layout_ok_def)
  qed
qed

lemma deallocate_layout:
  assumes "layout_ok bs"
  shows "layout_ok (deallocateMemory bs)"
proof -
  from assms obtain os rest where bs: "bs = os # rest"
    and os: "processName os = Some ''OS''" "block_size os = 128" "block_status os = Allocated"
    and rest: "list_all (\<lambda>b. processName b \<noteq> Some ''OS'') rest"
    and t: "tiles 0 (os # rest) 1024"
    by (auto simp: layout_ok_def split: list.splits)
  have "filter (\<lambda>b. processName b = Some ''OS'') rest = []"
    using rest by (simp add: filter_empty_conv list_all_iff)
  then have "deallocateMemory bs =
      [os, \<lparr>block_id = 2, processName = None, block_size = 896, startAddress = 128,
            endAddress = 1024, block_status = Free\<rparr>]"
    using os by (simp add: deallocateMemory_def bs)
  moreover have "startAddress os = 0" "endAddress os = 128"
    using t os by simp_all
  ultimately show ?thesis using os by (simp add: layout_ok_def)
qed

lemma place_tiles:
  "\<forall>b\<in>set bs. 0 < block_size b \<Longrightarrow>
   tiles a (fst (place bs i a)) (a + sum_list (map block_size bs))"
proof (induction bs arbitrary: i a)
  case Nil
  show ?case by simp
next
  case (Cons b bs)
  have "tiles (a + block_size b) (fst (place bs (Suc i) (a + block_size b)))
          (a + block_size b + sum_list (map block_size bs))"
    using Cons.prems by (intro Cons.IH) simp
  moreover have "a + sum_list (map block_size (b # bs)) =
      a + block_size b + sum_list (map block_size bs)" by simp
  ultimately show ?case
    using Cons.prems by (simp add: place_Cons add.assoc del: place.simps(2))
qed

lemma sum_filter_le:
  "\<forall>b\<in>set bs. (0::int) \<le> f b \<Longrightarrow> sum_list (map f (filter P bs)) \<le> sum_list (map f bs)"
  by (induction bs) auto

lemma compact_layout:
  assumes "layout_ok bs"
  shows "layout_ok (compactMemory bs)"
proof -
  from assms obtain os rest where bs: "bs = os # rest"
    and os: "processName os = Some ''OS''" "block_size os = 128" "block_status os = Allocated"
    and rest: "list_all (\<lambda>b. processName b \<noteq> Some ''OS'') rest"
    and t: "tiles 0 bs 1024"
    by (auto simp: layout_ok_def split: list.splits)
  define A where "A = filter (\<lambda>b. block_status b = Allocated) rest"
  have "sorted (map startAddress bs)"
    using tiles_strict_starts [OF t] by (simp only: strict_sorted_iff)
  then have "sorted (map startAddress (filter (\<lambda>b. block_status b = Allocated) bs))"
    by (rule sorted_filter)
  moreover have f: "filter (\<lambda>b. block_status b = Allocated) bs = os # A"
    using os(3) by (simp add: bs A_def)
  ultimately have "sorted (map startAddress (os # A))" by (simp only:)
  then have srt: "sort_key startAddress (os # A) = os # A" by (rule sort_key_id_if_sorted)
  have sizes: "\<forall>b\<in>set bs. 0 < block_size b" using tiles_bounds [OF t] by blast
  then have A_pos: "\<forall>b\<in>set A. 0 < block_size b" by (auto simp: A_def bs)
  define T where "T = sum_list (map block_size (os # A))"
  have "sum_list (map block_size (filter (\<lambda>b. block_status b = Allocated) bs))
      \<le> sum_list (map block_size bs)"
    using sizes by (intro sum_filter_le) force
  then have T_le: "T \<le> 1024"
    using tiles_sum [OF t] unfolding f T_def by simp
  define P where "P = fst (place (os # A) 0 0)"
  have P_t: "tiles 0 P T"
    using place_tiles [of "os # A" 0 0] A_pos os(2) by (simp add: P_def T_def)
  have P_hd: "P = os\<lparr>block_id := 1, startAddress := 0, endAddress := 128\<rparr> # fst (place A 1 128)"
    using os(2) by (simp add: P_def place_Cons del: place.simps(2))
  have names: "list_all (\<lambda>b. processName b \<noteq> Some ''OS'') (fst (place A 1 128))"
    unfolding list_all_iff
  proof
    fix c assume "c \<in> set (fst (place A 1 128))"
    then have "processName c \<in> set (map processName (fst (place A 1 128)))" by simp
    then have "processName c \<in> set (map processName A)" by (simp only: place_fields)
    then obtain a where "a \<in> set A" "processName a = processName c" by auto
    moreover have "processName a \<noteq> Some ''OS''"
      using rest \<open>a \<in> set A\<close> by (simp add: A_def list_all_iff)
    ultimately show "processName c \<noteq> Some ''OS''" by simp
  qed
  define F where "F = (if 0 < 1024 - T
      then [\<lparr>block_id = length P + 1, processName = None, block_size = 1024 - T,
              startAddress = T, endAddress = 1024, block_status = Free\<rparr>]
      else [])"
  have last: "snd (place (os # A) 0 0) = T" by (simp only: place_lastAddress T_def)
  have "compactMemory bs =
      (case place (os # A) 0 0 of
         (placed, currentAddress) \<Rightarrow>
           if 0 < 1024 - T
           then placed @
             [\<lparr>block_id = length placed + 1, processName = None, block_size = 1024 - T,
               startAddress = currentAddress, endAddress = 1024, block_status = Free\<rparr>]
           else placed)"
    unfolding compactMemory_def Let_def f srt T_def [symmetric] ..
  then have result: "compactMemory bs = P @ F"
    by (simp add: case_prod_beta P_def F_def last del: place.simps(2))
  have "tiles T F 1024" using T_le by (auto simp: F_def)
  with P_t have "tiles 0 (P @ F) 1024" unfolding tiles_append by blast
  moreover have "list_all (\<lambda>b. processName b \<noteq> Some ''OS'') (fst (place A 1 128) @ F)"
    using names by (simp add: F_def)
  ultimately show ?thesis
    using os by (simp add: layout_ok_def result P_hd)
qed

lemma memory_after_snoc:
  "memory_after (calls @ [c]) = memory_step (memory_after calls) c"
  by (simp add: memory_after_def)

lemma layout_step:
  "layout_ok bs \<Longrightarrow> valid_call c \<Longrightarrow> layout_ok (memory_step bs c)"
  by (cases c) (simp_all add: valid_call_def allocate_layout deallocate_layout compact_layout)

lemma initial_allocate:
  "allocateMemory sizeInput alg initial_memoryBlocks = (Inl InsufficientSpace, initial_memoryBlocks)"
proof -
  have "\<not> (\<exists>b\<in>set initial_memoryBlocks. block_status b = Free \<and> sz \<le> block_size b)" for sz
    by (simp add: initial_memoryBlocks_def)
  from no_candidate_select [OF this] show ?thesis by (simp add: allocateMemory_def)
qed

lemma initial_reset:
  "layout_ok (deallocateMemory initial_memoryBlocks)"
  "layout_ok (compactMemory initial_memoryBlocks)"
  by (simp_all add: layout_ok_def deallocateMemory_def compactMemory_def initial_memoryBlocks_def)

lemma initial_step:
  "memory_step initial_memoryBlocks c =
     (if is_reset c then memory_step initial_memoryBlocks c else initial_memoryBlocks)"
  "is_reset c \<Longrightarrow> layout_ok (memory_step initial_memoryBlocks c)"
  by (cases c; simp add: is_reset_def initial_allocate initial_reset)+

lemma memory_reachable:
  assumes "list_all valid_call calls"
  shows "if list_ex is_reset calls then layout_ok (memory_after calls)
         else memory_after calls = initial_memoryBlocks"
  using assms
proof (induction calls rule: rev_induct)
  case Nil
  show ?case by (simp add: memory_after_def)
next
  case (snoc c calls)
  then have v: "valid_call c" and IH: "if list_ex is_reset calls then layout_ok (memory_after calls)
         else memory_after calls = initial_memoryBlocks"
    by simp_all
  show ?case
  proof (cases "list_ex is_reset calls")
    case True
    with IH have "layout_ok (memory_after calls)" by simp
    then have "layout_ok (memory_after (calls @ [c]))"
      unfolding memory_after_snoc using v by (rule layout_step)
    then show ?thesis using True by simp
  next
    case False
    with IH have init: "memory_after calls = initial_memoryBlocks" by simp
    show ?thesis
    proof (cases "is_reset c")
      case True
      then show ?thesis
        unfolding memory_after_snoc init by (simp add: initial_step(2))
    next
      case nr: False
      then have "memory_after (calls @ [c]) = initial_memoryBlocks"
        unfolding memory_after_snoc init using initial_step(1) [of c] by simp
      then show ?thesis using False nr by simp
    qed
  qed
qed

lemma memory_partition_after_reset:
  assumes "list_all valid_call calls" and "list_ex is_reset calls"
  shows "partition_ok (memory_after calls)"
  using memory_reachable [OF assms(1)] assms(2) by (simp add: layout_ok_partition)

text \<open>
  C2. The claim: from the initial layout, after every finite sequence of allocate,
  deallocate and compact calls, the block sizes add up to 1024, the blocks do not
  overlap, \<open>endAddress - startAddress = size\<close> holds for each, and the list is sorted by
  \<open>startAddress\<close>. The initial array holds the 128 KB block of the operating system and
  no free block for the other 896 KB, which \<open>deallocateMemory\<close> and \<open>compactMemory\<close>
  create (\<open>memory_reachable\<close>: from the first of these calls on the layout is a
  partition of the 1024 KB). Until then the sizes add up to 128 and every allocation
  fails, as after the single call \<open>Allocate 100 First\<close>.
\<close>

theorem initial_layout_has_no_free_block:
  "memory_after [] = initial_memoryBlocks \<and>
   memory_after [Allocate 100 First] = initial_memoryBlocks \<and>
   fst (allocateMemory 100 First initial_memoryBlocks) = Inl InsufficientSpace \<and>
   sum_list (map block_size (memory_after [Allocate 100 First])) = 128 \<and>
   \<not> partition_ok (memory_after [Allocate 100 First])"
  by (simp add: memory_after_def initial_allocate partition_ok_def)
     (simp add: initial_memoryBlocks_def)

subsection \<open>Disk\<close>

lemma seek_distances_simps [simp]:
  "seek_distances h [] = []"
  "seek_distances h (c # cs) = \<bar>c - h\<bar> # seek_distances c cs"
  by (simp_all add: seek_distances_def)

lemma pendingRequests_Cons:
  "pendingRequests (r # rs) =
     (if processed r then [] else [0]) @ map Suc (pendingRequests rs)"
proof -
  have "[0..<length (r # rs)] = 0 # map Suc [0..<length rs]"
    by (simp add: upt_conv_Cons map_Suc_upt del: upt_Suc)
  then show ?thesis
    by (simp add: pendingRequests_def filter_map comp_def del: upt_Suc)
qed

lemma serve_shift:
  "serve (map Suc pending) (r # ds) h t =
     (case serve pending ds h t of (ds', h', t') \<Rightarrow> (r # ds', h', t'))"
  by (induction pending arbitrary: ds h t) (simp_all add: Let_def)

lemma serve_pending:
  "serve (pendingRequests ds) ds h t =
     (serviced h ds,
      last (h # map cylinder (filter (\<lambda>r. \<not> processed r) ds)),
      t + sum_list (seek_distances h (map cylinder (filter (\<lambda>r. \<not> processed r) ds))))"
proof (induction ds arbitrary: h t)
  case Nil
  then show ?case by (simp add: pendingRequests_def)
next
  case (Cons r rs)
  show ?case
  proof (cases "processed r")
    case True
    then show ?thesis by (simp add: pendingRequests_Cons serve_shift Cons.IH)
  next
    case False
    then show ?thesis
      by (simp add: pendingRequests_Cons serve_shift Cons.IH Let_def)
  qed
qed

lemma pending_empty_iff:
  "pendingRequests ds = [] \<longleftrightarrow> filter (\<lambda>r. \<not> processed r) ds = []"
proof (induction ds)
  case Nil
  show ?case by (simp add: pendingRequests_def)
next
  case (Cons r rs)
  then show ?case by (simp add: pendingRequests_Cons)
qed


lemma length_serviced [simp]: "length (serviced h ds) = length ds"
  by (induction ds arbitrary: h) simp_all

lemma serviced_seek_times:
  "map (\<lambda>i. seekTime (serviced h ds ! i)) (pendingRequests ds) =
     map (\<lambda>d. of_int d * 0.1) (seek_distances h (map cylinder (filter (\<lambda>r. \<not> processed r) ds)))"
proof (induction ds arbitrary: h)
  case Nil
  show ?case by (simp add: pendingRequests_def)
next
  case (Cons r rs)
  then show ?case by (simp add: pendingRequests_Cons comp_def)
qed

lemma length_pendingRequests:
  "length (pendingRequests ds) = length (filter (\<lambda>r. \<not> processed r) ds)"
proof (induction ds)
  case Nil
  show ?case by (simp add: pendingRequests_def)
next
  case (Cons r rs)
  then show ?case by (simp add: pendingRequests_Cons)
qed

lemma processDiskRequests_eq:
  "processDiskRequests selected w =
     (if filter (\<lambda>r. \<not> processed r) (diskRequests w) = [] then Inl NoPendingRequests
      else Inr \<lparr>diskRequests = serviced (headPosition w) (diskRequests w),
                headPosition = last (map cylinder (filter (\<lambda>r. \<not> processed r) (diskRequests w))),
                totalSeekDistance = sum_list (seek_distances (headPosition w)
                   (map cylinder (filter (\<lambda>r. \<not> processed r) (diskRequests w)))),
                avgSeekTime = sum_list (map (\<lambda>d. of_int d * 0.1) (seek_distances (headPosition w)
                   (map cylinder (filter (\<lambda>r. \<not> processed r) (diskRequests w)))))
                   / of_nat (length (filter (\<lambda>r. \<not> processed r) (diskRequests w)))\<rparr>)"
proof (cases "filter (\<lambda>r. \<not> processed r) (diskRequests w) = []")
  case True
  then have "pendingRequests (diskRequests w) = []" by (simp add: pending_empty_iff)
  then show ?thesis using True by (simp add: processDiskRequests_def)
next
  case False
  then have "pendingRequests (diskRequests w) \<noteq> []" by (simp add: pending_empty_iff)
  moreover have "map cylinder (filter (\<lambda>r. \<not> processed r) (diskRequests w)) \<noteq> []"
    using False by simp
  ultimately show ?thesis using False
    by (simp add: processDiskRequests_def Let_def serve_pending serviced_seek_times
        length_pendingRequests)
qed



lemma view_pending:
  assumes "map disk_view ds1 = map disk_view ds2"
  shows "pendingRequests ds1 = pendingRequests ds2"
proof -
  have len: "length ds1 = length ds2" using assms by (rule map_eq_imp_length_eq)
  have "processed (ds1 ! i) = processed (ds2 ! i)" if "i < length ds1" for i
  proof -
    have "disk_view (ds1 ! i) = disk_view (ds2 ! i)"
      using that len assms by (metis nth_map)
    then show ?thesis by (simp add: disk_view_def)
  qed
  then show ?thesis
    unfolding pendingRequests_def len [symmetric]
    by (intro filter_cong) auto
qed

lemma view_serviced:
  "map disk_view ds1 = map disk_view ds2 \<Longrightarrow>
   map disk_view (serviced h ds1) = map disk_view (serviced h ds2)"
proof (induction ds1 arbitrary: ds2 h)
  case Nil
  then show ?case by simp
next
  case (Cons r rs)
  then obtain r2 rs2 where ds2: "ds2 = r2 # rs2" by (cases ds2) auto
  with Cons.prems have hd: "disk_view r = disk_view r2" and tl: "map disk_view rs = map disk_view rs2"
    by simp_all
  from hd have "processed r = processed r2" "cylinder r = cylinder r2" "req_id r = req_id r2"
    "seekTime r = seekTime r2"
    by (simp_all add: disk_view_def)
  then show ?case using Cons.IH [OF tl] ds2 by (simp add: disk_view_def)
qed

lemma view_pending_cylinders:
  "map disk_view ds1 = map disk_view ds2 \<Longrightarrow>
   map cylinder (filter (\<lambda>r. \<not> processed r) ds1) = map cylinder (filter (\<lambda>r. \<not> processed r) ds2)"
proof (induction ds1 arbitrary: ds2)
  case Nil
  then show ?case by simp
next
  case (Cons r rs)
  then obtain r2 rs2 where ds2: "ds2 = r2 # rs2" by (cases ds2) auto
  with Cons.prems have hd: "disk_view r = disk_view r2" and tl: "map disk_view rs = map disk_view rs2"
    by simp_all
  from hd have "processed r = processed r2" "cylinder r = cylinder r2"
    by (simp_all add: disk_view_def)
  then show ?case using Cons.IH [OF tl] ds2 by simp
qed

text \<open>
  C9. The result of a run does not depend on the algorithm tag: two runs on queues
  that agree up to the \<open>algorithm\<close> tags of their requests, from the same head
  position and with any two selected algorithms, serve the same requests in the same
  order and agree on the seek time of every request, the total seek distance, the
  average seek time and the final head position.
\<close>

theorem disk_result_independent_of_algorithm:
  assumes "map disk_view (diskRequests w1) = map disk_view (diskRequests w2)"
    and "headPosition w1 = headPosition w2"
  shows "pendingRequests (diskRequests w1) = pendingRequests (diskRequests w2) \<and>
         run_view (processDiskRequests selected1 w1) = run_view (processDiskRequests selected2 w2)"
proof -
  note p = view_pending [OF assms(1)]
  note s = view_serviced [OF assms(1), of "headPosition w2"]
  note c = view_pending_cylinders [OF assms(1)]
  have e: "filter (\<lambda>r. \<not> processed r) (diskRequests w1) = [] \<longleftrightarrow>
           filter (\<lambda>r. \<not> processed r) (diskRequests w2) = []"
    using p by (simp add: pending_empty_iff [symmetric])
  have l: "length (filter (\<lambda>r. \<not> processed r) (diskRequests w1)) =
           length (filter (\<lambda>r. \<not> processed r) (diskRequests w2))"
    using p by (simp add: length_pendingRequests [symmetric])
  show ?thesis
    using p s
    by (simp add: processDiskRequests_eq [of _ w1] processDiskRequests_eq [of _ w2]
        run_view_def e c l assms(2))
qed

theorem disk_result_independent_of_algorithm_witness:
  "map disk_view (diskRequests scenario_D) =
     map disk_view (diskRequests (scenario_D\<lparr>diskRequests :=
        map (\<lambda>r. r\<lparr>algorithm := ''sstf''\<rparr>) (diskRequests scenario_D)\<rparr>)) \<and>
   run_view (processDiskRequests ''scan'' scenario_D) =
     run_view (processDiskRequests ''c-scan'' (scenario_D\<lparr>diskRequests :=
        map (\<lambda>r. r\<lparr>algorithm := ''sstf''\<rparr>) (diskRequests scenario_D)\<rparr>)) \<and>
   run_view (processDiskRequests ''scan'' scenario_D) =
     Inr ([(1, 98, 48 * 0.1, True), (2, 183, 85 * 0.1, True), (3, 37, 146 * 0.1, True),
           (4, 122, 85 * 0.1, True)],
          122, 364, (48 * 0.1 + 85 * 0.1 + 146 * 0.1 + 85 * 0.1) / 4)"
proof -
  let ?w2 = "scenario_D\<lparr>diskRequests :=
        map (\<lambda>r. r\<lparr>algorithm := ''sstf''\<rparr>) (diskRequests scenario_D)\<rparr>"
  have v: "map disk_view (diskRequests scenario_D) = map disk_view (diskRequests ?w2)"
    by (simp add: scenario_D_def addDiskRequest_def disk_view_def)
  have h: "headPosition scenario_D = headPosition ?w2" by simp
  have r: "run_view (processDiskRequests ''scan'' scenario_D) =
     Inr ([(1, 98, 48 * 0.1, True), (2, 183, 85 * 0.1, True), (3, 37, 146 * 0.1, True),
           (4, 122, 85 * 0.1, True)],
          122, 364, (48 * 0.1 + 85 * 0.1 + 146 * 0.1 + 85 * 0.1) / 4)"
    by (simp add: run_view_def processDiskRequests_def scenario_D_def addDiskRequest_def
        pendingRequests_def Let_def disk_view_def)
  from disk_result_independent_of_algorithm [OF v h, of "''scan''" "''c-scan''"] v r
  show ?thesis by simp
qed

end
